theory Spec2Isabelle
  imports Main "HOL-Library.Sublist"
begin

section \<open>Data model of the page script \<open>sample_apps/multi_agent/app.py\<close>\<close>

text \<open>
  The script \<open>main()\<close> is run from top to bottom by the page substrate on every user
  interaction. What survives between two runs is the session store; everything else
  (widgets read, elements drawn, collaborator calls) is an effect of one run. The model
  passes the store explicitly and returns the effects of a run as a list of events in
  the order the script performs them.
\<close>

datatype error = KeyError string | CollaboratorError string

type_synonym bytes = string

text \<open>A transcript entry: the dictionary with keys \<open>role\<close>, \<open>content\<close> and, optionally,
  \<open>image_path\<close> (\<open>None\<close>: the key is absent).\<close>

record message =
  role :: string
  content :: string
  image_path :: "string option"

text \<open>The object the upload control returns: its file name and the bytes \<open>getvalue()\<close>
  reads.\<close>

record uploaded_file =
  name :: string
  getvalue :: bytes

text \<open>\<open>st.session_state\<close>, restricted to the two keys the script reads. For each key the
  outer \<open>None\<close> says the key is absent; for \<open>chat\<close>, \<open>Some None\<close> is the Python value
  \<open>None\<close> and \<open>Some (Some h)\<close> a chat handle \<open>h\<close>.\<close>

record 'h session_state =
  messages :: "message list option"
  chat :: "'h option option"

datatype loop_status = Open | Closed

text \<open>What a run can change: the session store, whether the spinner is shown, and the
  asyncio event loops created so far (a loop is identified by its position in the list,
  so \<open>asyncio.new_event_loop()\<close> returns the length of the list and extends it).\<close>

record 'h runtime =
  session :: "'h session_state"
  spinner :: bool
  loops :: "loop_status list"

datatype 'h event =
    Set_page_config string
  | Title string
  | Caption string
  | Chat_message string
  | Write string
  | Image string
  | File_uploader string "string list"
  | Image_upload uploaded_file string
  | Button string
  | Spinner_enter string
  | Spinner_exit
  | New_event_loop nat
  | Set_event_loop nat
  | Initialize_chat_call nat
  | Initialize_chat_return nat 'h
  | Initialize_chat_raise nat error
  | Process_call nat "'h option" bytes
  | Process_return nat
  | Process_raise nat error
  | Loop_close nat
  | Session_clear
  | Rerun

text \<open>What one run receives from outside: the file the user has put into the upload
  control, the label of the button whose click triggered the run, and what the two
  collaborator calls would do in this run.\<close>

record 'h cycle =
  chosen :: "uploaded_file option"
  clicked :: "string option"
  chat_result :: "error + 'h"
  responses :: "'h option \<Rightarrow> bytes \<Rightarrow> message list \<Rightarrow> error + message list"

datatype outcome = Finished | Rerun_requested | Raised error

section \<open>The substrate and the collaborators\<close>

definition transcript :: "'h session_state \<Rightarrow> message list" where
  "transcript s = (case messages s of None \<Rightarrow> [] | Some ms \<Rightarrow> ms)"

text \<open>Modelled from the spec: \<open>initialize_chat\<close> of \<open>kernel_setup.py\<close>, which is not among
  the sources. The spec gives it as \<open>initialize_chat() -> ChatHandle\<close>: asynchronous, no
  inputs, produces an opaque chat handle or fails with an unspecified error, with no
  further contract observable. So a call has no effect on the session store and its
  result is a handle, never \<open>None\<close>.\<close>

definition initialize_chat :: "'h cycle \<Rightarrow> error + 'h" where
  "initialize_chat i = chat_result i"

text \<open>Modelled from the spec: \<open>process_image_and_get_responses\<close> of \<open>kernel_setup.py\<close>,
  which is not among the sources. The spec gives it as asynchronous, consuming the chat
  handle and the image bytes, mutating the shared transcript as its side effect (a
  successful call appends messages), and failing with an unspecified error; its failure
  scenario says that a raising call has appended no message. A store without the key
  \<open>messages\<close> is read as the empty transcript.\<close>

definition process_image_and_get_responses ::
  "'h cycle \<Rightarrow> 'h option \<Rightarrow> bytes \<Rightarrow> 'h session_state \<Rightarrow> error + 'h session_state" where
  "process_image_and_get_responses i ch image_bytes s =
     (case responses i ch image_bytes (transcript s) of
        Inl e \<Rightarrow> Inl e
      | Inr new \<Rightarrow> Inr (s\<lparr>messages := Some (transcript s @ new)\<rparr>))"

fun extension :: "string \<Rightarrow> string option" where
  "extension n =
     (if CHR ''.'' \<in> set n then Some (rev (takeWhile (\<lambda>c. c \<noteq> CHR ''.'') (rev n))) else None)"

text \<open>Modelled from the spec: the upload control of the page substrate (\<open>st.file_uploader\<close>
  of Streamlit, not among the sources). The spec gives it as accepting at most one file
  per render cycle, constrained to the given extension types, with no validation beyond
  that extension filtering.\<close>

definition file_uploader :: "string list \<Rightarrow> uploaded_file option \<Rightarrow> uploaded_file option" where
  "file_uploader types c =
     (case c of
        None \<Rightarrow> None
      | Some f \<Rightarrow>
          (case extension (name f) of
             None \<Rightarrow> None
           | Some x \<Rightarrow> if x \<in> set types then Some f else None))"

text \<open>\<open>st.button(label)\<close> is true in the run that the click on that button triggered.\<close>

definition button :: "string \<Rightarrow> 'h cycle \<Rightarrow> bool" where
  "button label i = (clicked i = Some label)"

section \<open>The script\<close>

text \<open>Lines 17 to 20: the two defaults.\<close>

definition init_session_state :: "'h session_state \<Rightarrow> 'h session_state" where
  "init_session_state s =
     (let s1 = (if messages s = None then s\<lparr>messages := Some []\<rparr> else s)
      in if chat s1 = None then s1\<lparr>chat := Some None\<rparr> else s1)"

text \<open>Lines 24 to 27: one transcript entry. The image is shown when the key is present
  and its value is truthy, that is a non-empty path.\<close>

definition display_message :: "message \<Rightarrow> 'h event list" where
  "display_message m =
     [Chat_message (role m), Write (content m)] @
     (case image_path m of
        None \<Rightarrow> []
      | Some p \<Rightarrow> if p \<noteq> [] then [Image p] else [])"

text \<open>Line 23: the loop over the transcript.\<close>

primrec display_chat_history :: "message list \<Rightarrow> 'h event list" where
  "display_chat_history [] = []"
| "display_chat_history (m # ms) = display_message m @ display_chat_history ms"

text \<open>Lines 51 to 54: the second awaited call, with the handle read from the store.\<close>

definition run_process ::
  "'h cycle \<Rightarrow> bytes \<Rightarrow> nat \<Rightarrow> 'h session_state \<Rightarrow> 'h event list \<Rightarrow>
   error option \<times> 'h session_state \<times> 'h event list" where
  "run_process i image_bytes loop s evs =
     (case chat s of
        None \<Rightarrow> (Some (KeyError ''chat''), s, evs)
      | Some ch \<Rightarrow>
          (case process_image_and_get_responses i ch image_bytes s of
             Inl e \<Rightarrow> (Some e, s, evs @ [Process_call loop ch image_bytes, Process_raise loop e])
           | Inr s' \<Rightarrow> (None, s', evs @ [Process_call loop ch image_bytes, Process_return loop])))"

text \<open>Lines 46 to 54: the body of the \<open>try\<close>. The store is assigned only after the awaited
  \<open>initialize_chat()\<close> has returned.\<close>

definition try_body ::
  "'h cycle \<Rightarrow> bytes \<Rightarrow> nat \<Rightarrow> 'h session_state \<Rightarrow>
   error option \<times> 'h session_state \<times> 'h event list" where
  "try_body i image_bytes loop s =
     (case chat s of
        None \<Rightarrow> (Some (KeyError ''chat''), s, [])
      | Some None \<Rightarrow>
          (case initialize_chat i of
             Inl e \<Rightarrow> (Some e, s, [Initialize_chat_call loop, Initialize_chat_raise loop e])
           | Inr h \<Rightarrow>
               run_process i image_bytes loop (s\<lparr>chat := Some (Some h)\<rparr>)
                 [Initialize_chat_call loop, Initialize_chat_return loop h])
      | Some (Some h) \<Rightarrow> run_process i image_bytes loop s [])"

text \<open>Lines 38 to 56: the analyze action. The \<open>finally\<close> closes the loop and the \<open>with\<close>
  leaves the spinner on every path; an error of the body is handed on.\<close>

definition analyze ::
  "'h cycle \<Rightarrow> uploaded_file \<Rightarrow> 'h runtime \<Rightarrow> error option \<times> 'h runtime \<times> 'h event list" where
  "analyze i uploaded rt =
     (let rt1 = rt\<lparr>spinner := True\<rparr>;
          image_bytes = getvalue uploaded;
          loop = length (loops rt1);
          rt2 = rt1\<lparr>loops := loops rt1 @ [Open]\<rparr>
      in case try_body i image_bytes loop (session rt2) of
           (err, s', evs) \<Rightarrow>
             (let rt3 = rt2\<lparr>session := s', loops := (loops rt2)[loop := Closed]\<rparr>;
                  rt4 = rt3\<lparr>spinner := False\<rparr>
              in (err, rt4,
                  [Spinner_enter ''Processing image...'', New_event_loop loop, Set_event_loop loop]
                  @ evs @ [Loop_close loop, Spinner_exit])))"

text \<open>Lines 30 to 56: the upload control, the preview and the analyze button.\<close>

definition upload_section ::
  "'h cycle \<Rightarrow> 'h runtime \<Rightarrow> error option \<times> 'h runtime \<times> 'h event list" where
  "upload_section i rt =
     (case file_uploader [''jpg'', ''jpeg'', ''png''] (chosen i) of
        None \<Rightarrow> (None, rt, [File_uploader ''Choose an image...'' [''jpg'', ''jpeg'', ''png'']])
      | Some uploaded \<Rightarrow>
          (if button ''Analyze and Find Products'' i
           then (case analyze i uploaded rt of
                   (err, rt', evs) \<Rightarrow>
                     (err, rt',
                      [File_uploader ''Choose an image...'' [''jpg'', ''jpeg'', ''png''],
                       Image_upload uploaded ''Uploaded Image'',
                       Button ''Analyze and Find Products''] @ evs))
           else (None, rt,
                 [File_uploader ''Choose an image...'' [''jpg'', ''jpeg'', ''png''],
                  Image_upload uploaded ''Uploaded Image'',
                  Button ''Analyze and Find Products''])))"

text \<open>Lines 58 to 61: the reset button.\<close>

definition reset_section :: "'h cycle \<Rightarrow> 'h runtime \<Rightarrow> outcome \<times> 'h runtime \<times> 'h event list" where
  "reset_section i rt =
     (if button ''Start Over'' i
      then (Rerun_requested, rt\<lparr>session := \<lparr>messages = None, chat = None\<rparr>\<rparr>,
            [Button ''Start Over'', Session_clear, Rerun])
      else (Finished, rt, [Button ''Start Over'']))"

text \<open>Lines 10 to 61.\<close>

definition main :: "'h cycle \<Rightarrow> 'h runtime \<Rightarrow> outcome \<times> 'h runtime \<times> 'h event list" where
  "main i rt =
     (let rt1 = rt\<lparr>session := init_session_state (session rt)\<rparr>;
          head = [Set_page_config ''Image Analysis & Shopping Assistant'',
                  Title ''Image Analysis & Shopping Assistant'',
                  Caption ''Upload an image to find where to buy similar items!'']
      in case messages (session rt1) of
           None \<Rightarrow> (Raised (KeyError ''messages''), rt1, head)
         | Some ms \<Rightarrow>
             (case upload_section i rt1 of
                (Some e, rt2, evs) \<Rightarrow> (Raised e, rt2, head @ display_chat_history ms @ evs)
              | (None, rt2, evs) \<Rightarrow>
                  (case reset_section i rt2 of
                     (out, rt3, evs') \<Rightarrow>
                       (out, rt3, head @ display_chat_history ms @ evs @ evs'))))"

text \<open>The substrate runs the script once for an interaction, and once more, with no
  button clicked, when the script asked for a rerun.\<close>

definition run_script :: "'h cycle \<Rightarrow> 'h runtime \<Rightarrow> outcome \<times> 'h runtime \<times> 'h event list" where
  "run_script i rt =
     (case main i rt of
        (Rerun_requested, rt', evs) \<Rightarrow>
          (case main (i\<lparr>clicked := None\<rparr>) rt' of
             (out, rt'', evs') \<Rightarrow> (out, rt'', evs @ evs'))
      | (Finished, rt', evs) \<Rightarrow> (Finished, rt', evs)
      | (Raised e, rt', evs) \<Rightarrow> (Raised e, rt', evs))"

text \<open>A session: the interactions in order, each on the store the previous one left.\<close>

fun run_session :: "'h cycle list \<Rightarrow> 'h runtime \<Rightarrow> 'h runtime \<times> 'h event list" where
  "run_session [] rt = (rt, [])"
| "run_session (i # rest) rt =
     (case run_script i rt of
        (out, rt', evs) \<Rightarrow>
          (case run_session rest rt' of
             (rt'', evs') \<Rightarrow> (rt'', evs @ evs')))"

section \<open>Notions used in the statements\<close>

text \<open>The value \<open>st.session_state["chat"]\<close> has once the defaults of lines 19 and 20 are
  in place: the stored handle, or \<open>None\<close>.\<close>

definition handle :: "'h session_state \<Rightarrow> 'h option" where
  "handle s = (case chat s of None \<Rightarrow> None | Some c \<Rightarrow> c)"

text \<open>Lines 11 to 14.\<close>

definition page_head :: "'h event list" where
  "page_head = [Set_page_config ''Image Analysis & Shopping Assistant'',
                Title ''Image Analysis & Shopping Assistant'',
                Caption ''Upload an image to find where to buy similar items!'']"

text \<open>A run performs the analyze action on the file \<open>f\<close>: the upload control returned \<open>f\<close>
  and the run was triggered by the analyze button.\<close>

definition analyze_action :: "'h cycle \<Rightarrow> uploaded_file \<Rightarrow> bool" where
  "analyze_action i f =
     (file_uploader [''jpg'', ''jpeg'', ''png''] (chosen i) = Some f
      \<and> button ''Analyze and Find Products'' i)"

fun is_transcript_event :: "'h event \<Rightarrow> bool" where
  "is_transcript_event (Chat_message r) = True"
| "is_transcript_event (Write c) = True"
| "is_transcript_event (Image p) = True"
| "is_transcript_event ev = False"

text \<open>\<open>occurs_before a b xs\<close>: \<open>a\<close> occurs in \<open>xs\<close>, \<open>b\<close> occurs in \<open>xs\<close>, and no \<open>b\<close> stands at
  or before the first \<open>a\<close>.\<close>

fun occurs_before :: "'a \<Rightarrow> 'a \<Rightarrow> 'a list \<Rightarrow> bool" where
  "occurs_before a b [] = False"
| "occurs_before a b (x # xs) =
     (if x = b then False else if x = a then b \<in> set xs else occurs_before a b xs)"

text \<open>The loops a list of events creates, in order.\<close>

fun new_loops :: "'h event list \<Rightarrow> nat list" where
  "new_loops [] = []"
| "new_loops (New_event_loop n # evs) = n # new_loops evs"
| "new_loops (ev # evs) = new_loops evs"

text \<open>The loop an event runs on or acts on, if any.\<close>

fun loop_of :: "'h event \<Rightarrow> nat option" where
  "loop_of (New_event_loop n) = Some n"
| "loop_of (Set_event_loop n) = Some n"
| "loop_of (Initialize_chat_call n) = Some n"
| "loop_of (Initialize_chat_return n h) = Some n"
| "loop_of (Initialize_chat_raise n e) = Some n"
| "loop_of (Process_call n c b) = Some n"
| "loop_of (Process_return n) = Some n"
| "loop_of (Process_raise n e) = Some n"
| "loop_of (Loop_close n) = Some n"
| "loop_of ev = None"

fun in_pipeline :: "'h event \<Rightarrow> bool" where
  "in_pipeline (Spinner_enter t) = True"
| "in_pipeline Spinner_exit = True"
| "in_pipeline ev = (loop_of ev \<noteq> None)"

fun is_uploader :: "'h event \<Rightarrow> bool" where
  "is_uploader (File_uploader t ts) = True"
| "is_uploader ev = False"

fun is_preview :: "'h event \<Rightarrow> bool" where
  "is_preview (Image_upload f c) = True"
| "is_preview ev = False"

text \<open>The image a transcript entry refers to: the key is present and the path non-empty.\<close>

definition image_of :: "message \<Rightarrow> string list" where
  "image_of m = (case image_path m of None \<Rightarrow> [] | Some p \<Rightarrow> if p \<noteq> [] then [p] else [])"

text \<open>The number of times \<open>initialize_chat()\<close> returned a handle.\<close>

fun init_returns :: "'h event list \<Rightarrow> nat" where
  "init_returns [] = 0"
| "init_returns (Initialize_chat_return n h # evs) = Suc (init_returns evs)"
| "init_returns (ev # evs) = init_returns evs"

text \<open>The handles passed to \<open>process_image_and_get_responses\<close>, one per call, in order.\<close>

fun process_handles :: "'h event list \<Rightarrow> 'h option list" where
  "process_handles [] = []"
| "process_handles (Process_call l c b # evs) = c # process_handles evs"
| "process_handles (ev # evs) = process_handles evs"

text \<open>The run performs the analyze action: the upload control returns a file and the run was
  triggered by the analyze button.\<close>

definition is_analyze :: "'h cycle \<Rightarrow> bool" where
  "is_analyze i =
     (file_uploader [''jpg'', ''jpeg'', ''png''] (chosen i) \<noteq> None
      \<and> button ''Analyze and Find Products'' i)"

subsection \<open>Concrete inputs\<close>

definition photo :: uploaded_file where
  "photo = \<lparr>name = ''photo.png'', getvalue = ''abc''\<rparr>"

definition text_file :: uploaded_file where
  "text_file = \<lparr>name = ''notes.txt'', getvalue = ''abc''\<rparr>"

definition found :: message where
  "found = \<lparr>role = ''assistant'', content = ''Found 3 matching items'', image_path = None\<rparr>"

definition pictured :: message where
  "pictured = \<lparr>role = ''user'', content = ''Uploaded image'', image_path = Some ''/tmp/a.png''\<rparr>"

definition fresh :: "nat runtime" where
  "fresh = \<lparr>session = \<lparr>messages = None, chat = None\<rparr>, spinner = False, loops = []\<rparr>"

text \<open>A click on the analyze button with \<open>photo.png\<close> uploaded; both collaborators
  succeed.\<close>

definition click_analyze :: "nat cycle" where
  "click_analyze =
     \<lparr>chosen = Some photo, clicked = Some ''Analyze and Find Products'',
      chat_result = Inr 7, responses = (\<lambda>c b ms. Inr [found])\<rparr>"

text \<open>The same click; \<open>initialize_chat()\<close> fails.\<close>

definition click_init_fails :: "nat cycle" where
  "click_init_fails =
     \<lparr>chosen = Some photo, clicked = Some ''Analyze and Find Products'',
      chat_result = Inl (CollaboratorError ''no endpoint''), responses = (\<lambda>c b ms. Inr [found])\<rparr>"

text \<open>The same click; \<open>process_image_and_get_responses\<close> fails.\<close>

definition click_process_fails :: "nat cycle" where
  "click_process_fails =
     \<lparr>chosen = Some photo, clicked = Some ''Analyze and Find Products'',
      chat_result = Inr 7, responses = (\<lambda>c b ms. Inl (CollaboratorError ''timeout''))\<rparr>"

text \<open>A click on the reset button.\<close>

definition click_start_over :: "nat cycle" where
  "click_start_over =
     \<lparr>chosen = Some photo, clicked = Some ''Start Over'',
      chat_result = Inr 7, responses = (\<lambda>c b ms. Inr [found])\<rparr>"

text \<open>The analyze button clicked while the upload control holds \<open>notes.txt\<close>.\<close>

definition click_text_file :: "nat cycle" where
  "click_text_file =
     \<lparr>chosen = Some text_file, clicked = Some ''Analyze and Find Products'',
      chat_result = Inr 7, responses = (\<lambda>c b ms. Inr [found])\<rparr>"

text \<open>A run with nothing uploaded and no button clicked.\<close>

definition no_click :: "nat cycle" where
  "no_click =
     \<lparr>chosen = None, clicked = None, chat_result = Inr 7, responses = (\<lambda>c b ms. Inr [found])\<rparr>"

text \<open>A session that has a handle and two messages.\<close>

definition used :: "nat runtime" where
  "used = \<lparr>session = \<lparr>messages = Some [pictured, found], chat = Some (Some 7)\<rparr>,
           spinner = False, loops = [Closed]\<rparr>"

declare extension.simps [simp del]

section \<open>The script, one run\<close>

lemma init_session_state_eq:
  "init_session_state s = s\<lparr>messages := Some (transcript s), chat := Some (handle s)\<rparr>"
  by (cases s)
    (auto simp: init_session_state_def transcript_def handle_def Let_def split: option.splits)

lemma run_process_eq:
  "chat s = Some c \<Longrightarrow> run_process i b l s evs =
     (case responses i c b (transcript s) of
        Inl e \<Rightarrow> (Some e, s, evs @ [Process_call l c b, Process_raise l e])
      | Inr new \<Rightarrow> (None, s\<lparr>messages := Some (transcript s @ new)\<rparr>,
                   evs @ [Process_call l c b, Process_return l]))"
  by (simp add: run_process_def process_image_and_get_responses_def split: sum.splits)

lemma try_body_eq:
  "chat s = Some c \<Longrightarrow> try_body i b l s =
     (case c of
        None \<Rightarrow>
          (case chat_result i of
             Inl e \<Rightarrow> (Some e, s, [Initialize_chat_call l, Initialize_chat_raise l e])
           | Inr h \<Rightarrow>
              (case responses i (Some h) b (transcript s) of
                 Inl e \<Rightarrow> (Some e, s\<lparr>chat := Some (Some h)\<rparr>,
                     [Initialize_chat_call l, Initialize_chat_return l h,
                      Process_call l (Some h) b, Process_raise l e])
               | Inr new \<Rightarrow>
                   (None, s\<lparr>chat := Some (Some h), messages := Some (transcript s @ new)\<rparr>,
                     [Initialize_chat_call l, Initialize_chat_return l h,
                      Process_call l (Some h) b, Process_return l])))
      | Some h \<Rightarrow>
          (case responses i (Some h) b (transcript s) of
             Inl e \<Rightarrow> (Some e, s, [Process_call l (Some h) b, Process_raise l e])
           | Inr new \<Rightarrow> (None, s\<lparr>messages := Some (transcript s @ new)\<rparr>,
                     [Process_call l (Some h) b, Process_return l])))"
  by (cases s)
    (auto simp: try_body_def run_process_eq initialize_chat_def transcript_def
      split: sum.splits option.splits)

lemma main_analyze:
  assumes "file_uploader [''jpg'', ''jpeg'', ''png''] (chosen i) = Some f"
    and "clicked i = Some ''Analyze and Find Products''"
  shows "main i rt =
     (case try_body i (getvalue f) (length (loops rt)) (init_session_state (session rt)) of
        (err, s', evs) \<Rightarrow>
          ((case err of None \<Rightarrow> Finished | Some e \<Rightarrow> Raised e),
           rt\<lparr>session := s', spinner := False, loops := loops rt @ [Closed]\<rparr>,
           page_head @ display_chat_history (transcript (session rt)) @
           [File_uploader ''Choose an image...'' [''jpg'', ''jpeg'', ''png''],
            Image_upload f ''Uploaded Image'',
            Button ''Analyze and Find Products'',
            Spinner_enter ''Processing image...'',
            New_event_loop (length (loops rt)), Set_event_loop (length (loops rt))]
           @ evs @ [Loop_close (length (loops rt)), Spinner_exit]
           @ (case err of None \<Rightarrow> [Button ''Start Over''] | Some e \<Rightarrow> [])))"
  using assms
  by (auto simp: main_def upload_section_def analyze_def reset_section_def button_def
      init_session_state_eq page_head_def Let_def split: prod.splits option.splits)

lemma main_no_analyze:
  assumes "file_uploader [''jpg'', ''jpeg'', ''png''] (chosen i) = None
           \<or> clicked i \<noteq> Some ''Analyze and Find Products''"
  shows "main i rt =
     ((if clicked i = Some ''Start Over'' then Rerun_requested else Finished),
      rt\<lparr>session := (if clicked i = Some ''Start Over'' then \<lparr>messages = None, chat = None\<rparr>
                      else init_session_state (session rt))\<rparr>,
      page_head @ display_chat_history (transcript (session rt)) @
      [File_uploader ''Choose an image...'' [''jpg'', ''jpeg'', ''png'']] @
      (case file_uploader [''jpg'', ''jpeg'', ''png''] (chosen i) of
         None \<Rightarrow> []
       | Some f \<Rightarrow> [Image_upload f ''Uploaded Image'', Button ''Analyze and Find Products'']) @
      (if clicked i = Some ''Start Over'' then [Button ''Start Over'', Session_clear, Rerun]
       else [Button ''Start Over'']))"
  using assms
  by (auto simp: main_def upload_section_def reset_section_def button_def
      init_session_state_eq page_head_def Let_def split: prod.splits option.splits)

lemma main_no_action:
  assumes "\<And>f. \<not> analyze_action i f"
  shows "main i rt =
     ((if clicked i = Some ''Start Over'' then Rerun_requested else Finished),
      rt\<lparr>session := (if clicked i = Some ''Start Over'' then \<lparr>messages = None, chat = None\<rparr>
                      else init_session_state (session rt))\<rparr>,
      page_head @ display_chat_history (transcript (session rt)) @
      [File_uploader ''Choose an image...'' [''jpg'', ''jpeg'', ''png'']] @
      (case file_uploader [''jpg'', ''jpeg'', ''png''] (chosen i) of
         None \<Rightarrow> []
       | Some f \<Rightarrow> [Image_upload f ''Uploaded Image'', Button ''Analyze and Find Products'']) @
      (if clicked i = Some ''Start Over'' then [Button ''Start Over'', Session_clear, Rerun]
       else [Button ''Start Over'']))"
proof -
  have "file_uploader [''jpg'', ''jpeg'', ''png''] (chosen i) = None
           \<or> clicked i \<noteq> Some ''Analyze and Find Products''"
    using assms by (auto simp: analyze_action_def button_def)
  then show ?thesis by (rule main_no_analyze)
qed

lemma occurs_before_append:
  "a \<notin> set xs \<Longrightarrow> b \<notin> set xs \<Longrightarrow> occurs_before a b (xs @ ys) = occurs_before a b ys"
  by (induction xs) auto

lemma display_chat_history_events:
  "ev \<in> set (display_chat_history ms) \<Longrightarrow> is_transcript_event ev"
  by (induction ms) (auto simp: display_message_def split: option.splits if_splits)

lemma history_free:
  "\<not> is_transcript_event ev \<Longrightarrow> ev \<notin> set (display_chat_history ms)"
  using display_chat_history_events by blast

text \<open>The analyze action in full: the three ways it can end when the store holds no
  handle, and the two ways when it holds one.\<close>

lemma main_action:
  assumes "analyze_action i f"
  shows "main i rt =
    (let l = length (loops rt); s = init_session_state (session rt); b = getvalue f;
         pre = page_head @ display_chat_history (transcript (session rt)) @
           [File_uploader ''Choose an image...'' [''jpg'', ''jpeg'', ''png''],
            Image_upload f ''Uploaded Image'',
            Button ''Analyze and Find Products'',
            Spinner_enter ''Processing image...'',
            New_event_loop l, Set_event_loop l];
         rt1 = rt\<lparr>spinner := False, loops := loops rt @ [Closed]\<rparr>
     in case handle (session rt) of
        None \<Rightarrow>
          (case chat_result i of
             Inl e \<Rightarrow> (Raised e, rt1\<lparr>session := s\<rparr>,
                 pre @ [Initialize_chat_call l, Initialize_chat_raise l e, Loop_close l, Spinner_exit])
           | Inr h \<Rightarrow>
              (case responses i (Some h) b (transcript (session rt)) of
                 Inl e \<Rightarrow> (Raised e, rt1\<lparr>session := s\<lparr>chat := Some (Some h)\<rparr>\<rparr>,
                     pre @ [Initialize_chat_call l, Initialize_chat_return l h,
                      Process_call l (Some h) b, Process_raise l e, Loop_close l, Spinner_exit])
               | Inr new \<Rightarrow> (Finished,
                     rt1\<lparr>session := \<lparr>messages = Some (transcript (session rt) @ new),
                                      chat = Some (Some h)\<rparr>\<rparr>,
                     pre @ [Initialize_chat_call l, Initialize_chat_return l h,
                      Process_call l (Some h) b, Process_return l, Loop_close l, Spinner_exit,
                      Button ''Start Over''])))
      | Some h \<Rightarrow>
          (case responses i (Some h) b (transcript (session rt)) of
             Inl e \<Rightarrow> (Raised e, rt1\<lparr>session := s\<rparr>,
                 pre @ [Process_call l (Some h) b, Process_raise l e, Loop_close l, Spinner_exit])
           | Inr new \<Rightarrow> (Finished,
                 rt1\<lparr>session := \<lparr>messages = Some (transcript (session rt) @ new),
                                  chat = Some (Some h)\<rparr>\<rparr>,
                 pre @ [Process_call l (Some h) b, Process_return l, Loop_close l, Spinner_exit,
                  Button ''Start Over''])))"
proof -
  have up: "file_uploader [''jpg'', ''jpeg'', ''png''] (chosen i) = Some f"
    and cl: "clicked i = Some ''Analyze and Find Products''"
    using assms by (simp_all add: analyze_action_def button_def)
  have c: "chat (init_session_state (session rt)) = Some (handle (session rt))"
    by (simp add: init_session_state_eq)
  have t: "transcript (init_session_state (session rt)) = transcript (session rt)"
    by (simp add: init_session_state_eq transcript_def)
  show ?thesis
    unfolding main_analyze [OF up cl] try_body_eq [OF c] t
    by (cases "session rt")
      (simp add: Let_def init_session_state_eq transcript_def handle_def
        split: option.splits sum.splits)
qed

subsection \<open>Runs without the analyze action, and the shape of a run\<close>

lemma main_split:
  obtains (action) f where "analyze_action i f" | (idle) "\<And>f. \<not> analyze_action i f"
  by blast

lemma transcript_event_plain:
  "is_transcript_event ev \<Longrightarrow> loop_of ev = None \<and> ev \<noteq> Spinner_exit"
  by (cases ev) auto

lemma idle_events:
  assumes "\<And>f. \<not> analyze_action i f" and "main i rt = (out, rt', evs)"
  shows "\<forall>ev\<in>set evs. loop_of ev = None \<and> ev \<noteq> Spinner_exit"
  using assms(2) unfolding main_no_action [OF assms(1)]
  by (auto simp: page_head_def split: option.splits if_splits
      dest!: display_chat_history_events transcript_event_plain)

lemma file_uploader_Some:
  "file_uploader ts c = Some f \<Longrightarrow> c = Some f \<and> (\<exists>x\<in>set ts. extension (name f) = Some x)"
  by (auto simp: file_uploader_def split: option.splits if_splits)

lemma transcript_event_other:
  "is_transcript_event ev \<Longrightarrow>
     \<not> in_pipeline ev \<and> \<not> is_uploader ev \<and> \<not> is_preview ev \<and> (\<forall>t. ev \<noteq> Button t)"
  by (cases ev) auto

lemma filter_history:
  "(\<And>ev. is_transcript_event ev \<Longrightarrow> \<not> P ev) \<Longrightarrow> filter P (display_chat_history ms) = []"
  by (auto simp: filter_empty_conv dest: display_chat_history_events)

lemma filter_history_all:
  "filter is_transcript_event (display_chat_history ms) = display_chat_history ms"
  by (auto simp: filter_id_conv dest: display_chat_history_events)

lemma try_body_events:
  "try_body i b l s = (err, s', tevs) \<Longrightarrow> \<forall>ev\<in>set tevs. loop_of ev = Some l"
  by (auto simp: try_body_def run_process_def split: option.splits sum.splits)

lemma loop_of_plain:
  "loop_of ev = Some l \<Longrightarrow>
     \<not> is_uploader ev \<and> \<not> is_preview ev \<and> \<not> is_transcript_event ev \<and> (\<forall>t. ev \<noteq> Button t)"
  by (cases ev) auto

lemma main_shape:
  assumes "main i rt = (out, rt', evs)"
  obtains rest where
    "evs = (page_head @ display_chat_history (transcript (session rt))) @
           [File_uploader ''Choose an image...'' [''jpg'', ''jpeg'', ''png'']] @
           (case file_uploader [''jpg'', ''jpeg'', ''png''] (chosen i) of
              None \<Rightarrow> []
            | Some f \<Rightarrow> [Image_upload f ''Uploaded Image'', Button ''Analyze and Find Products''])
           @ rest"
    and "\<forall>ev\<in>set rest. \<not> is_uploader ev \<and> \<not> is_preview ev
           \<and> \<not> is_transcript_event ev \<and> ev \<noteq> Button ''Analyze and Find Products''"
proof (cases i rule: main_split)
  case idle
  show ?thesis
    by (rule that [of "if clicked i = Some ''Start Over''
          then [Button ''Start Over'', Session_clear, Rerun] else [Button ''Start Over'']"])
      (use assms in \<open>auto simp: main_no_action [OF idle]\<close>)
next
  case (action f)
  then have u: "file_uploader [''jpg'', ''jpeg'', ''png''] (chosen i) = Some f"
    and cl: "clicked i = Some ''Analyze and Find Products''"
    by (simp_all add: analyze_action_def button_def)
  obtain err s' tevs where
    t: "try_body i (getvalue f) (length (loops rt)) (init_session_state (session rt))
          = (err, s', tevs)"
    by (cases "try_body i (getvalue f) (length (loops rt)) (init_session_state (session rt))")
  have e: "evs = (page_head @ display_chat_history (transcript (session rt))) @
           [File_uploader ''Choose an image...'' [''jpg'', ''jpeg'', ''png'']] @
           [Image_upload f ''Uploaded Image'', Button ''Analyze and Find Products''] @
           ([Spinner_enter ''Processing image...'', New_event_loop (length (loops rt)),
            Set_event_loop (length (loops rt))] @ tevs @
            [Loop_close (length (loops rt)), Spinner_exit] @
            (case err of None \<Rightarrow> [Button ''Start Over''] | Some e \<Rightarrow> []))"
    using assms unfolding main_analyze [OF u cl] t by simp
  have "\<forall>ev\<in>set tevs. \<not> is_uploader ev \<and> \<not> is_preview ev
           \<and> \<not> is_transcript_event ev \<and> ev \<noteq> Button ''Analyze and Find Products''"
    using try_body_events [OF t] by (auto simp: loop_of_plain)
  then have r: "\<forall>ev\<in>set ([Spinner_enter ''Processing image...'',
            New_event_loop (length (loops rt)), Set_event_loop (length (loops rt))] @ tevs @
            [Loop_close (length (loops rt)), Spinner_exit] @
            (case err of None \<Rightarrow> [Button ''Start Over''] | Some e \<Rightarrow> [])).
          \<not> is_uploader ev \<and> \<not> is_preview ev \<and> \<not> is_transcript_event ev
          \<and> ev \<noteq> Button ''Analyze and Find Products''"
    by (auto split: option.splits)
  show ?thesis
    by (rule that [OF _ r]) (simp add: e u)
qed

lemma display_message_eq:
  "display_message m = Chat_message (role m) # Write (content m) # map Image (image_of m)"
  by (simp add: display_message_def image_of_def split: option.splits)

lemma display_chat_history_eq:
  "display_chat_history ms =
     concat (map (\<lambda>m. Chat_message (role m) # Write (content m) # map Image (image_of m)) ms)"
  by (induction ms) (simp_all add: display_message_eq)

subsection \<open>Event loops\<close>

lemma new_loops_append: "new_loops (xs @ ys) = new_loops xs @ new_loops ys"
  by (induction xs rule: new_loops.induct) simp_all

lemma init_returns_append: "init_returns (xs @ ys) = init_returns xs + init_returns ys"
  by (induction xs rule: init_returns.induct) simp_all

lemma no_loop_events:
  "\<forall>ev\<in>set evs. loop_of ev = None \<Longrightarrow> new_loops evs = [] \<and> init_returns evs = 0"
  by (induction evs rule: new_loops.induct) simp_all

lemma history_no_loops:
  "new_loops (display_chat_history ms :: 'h event list) = []"
  "init_returns (display_chat_history ms :: 'h event list) = 0"
  using no_loop_events [of "display_chat_history ms :: 'h event list"]
  by (auto dest!: display_chat_history_events transcript_event_plain)

lemma run_script_action:
  assumes "analyze_action i f"
  shows "run_script i rt = main i rt"
proof -
  have "fst (main i rt) \<noteq> Rerun_requested"
    unfolding main_action [OF assms]
    by (simp add: Let_def split: option.splits sum.splits)
  then show ?thesis
    by (cases "main i rt" rule: prod_cases3, cases "fst (main i rt)")
      (auto simp: run_script_def)
qed

lemma run_script_idle:
  assumes "\<And>f. \<not> analyze_action i f" and "run_script i rt = (out, rt', evs)"
  shows "out = Finished
         \<and> rt' = rt\<lparr>session := (if button ''Start Over'' i
                                 then \<lparr>messages = Some [], chat = Some None\<rparr>
                                 else init_session_state (session rt))\<rparr>
         \<and> (\<forall>ev\<in>set evs. loop_of ev = None)"
proof (cases "button ''Start Over'' i")
  case True
  have idle': "\<not> analyze_action (i\<lparr>clicked := None\<rparr>) f" for f
    by (simp add: analyze_action_def button_def)
  obtain o1 r1 e1 where m1: "main i rt = (o1, r1, e1)" by (cases "main i rt") auto
  obtain o2 r2 e2 where m2: "main (i\<lparr>clicked := None\<rparr>) r1 = (o2, r2, e2)"
    by (cases "main (i\<lparr>clicked := None\<rparr>) r1") auto
  have a: "o1 = Rerun_requested" "r1 = rt\<lparr>session := \<lparr>messages = None, chat = None\<rparr>\<rparr>"
    using m1 True unfolding main_no_action [OF assms(1)] by (auto simp: button_def)
  have b: "o2 = Finished" "r2 = rt\<lparr>session := \<lparr>messages = Some [], chat = Some None\<rparr>\<rparr>"
    using m2 unfolding main_no_action [OF idle'] a
    by (auto simp: init_session_state_def)
  have "evs = e1 @ e2" "out = o2" "rt' = r2"
    using assms(2) by (simp_all add: run_script_def m1 m2 [unfolded a] a)
  with idle_events [OF assms(1) m1] idle_events [OF idle' m2] a b True
  show ?thesis by auto
next
  case False
  obtain o1 r1 e1 where m1: "main i rt = (o1, r1, e1)" by (cases "main i rt") auto
  have a: "o1 = Finished" "r1 = rt\<lparr>session := init_session_state (session rt)\<rparr>"
    using m1 False unfolding main_no_action [OF assms(1)] by (auto simp: button_def)
  have "evs = e1" "out = o1" "rt' = r1"
    using assms(2) by (simp_all add: run_script_def m1 a)
  with idle_events [OF assms(1) m1] a False show ?thesis by auto
qed

lemma main_action_loops:
  assumes "analyze_action i f" and "main i rt = (out, rt', evs)"
  shows "loops rt' = loops rt @ [Closed]" and "new_loops evs = [length (loops rt)]"
    and "\<forall>ev\<in>set evs. \<forall>n. loop_of ev = Some n \<longrightarrow> n = length (loops rt)"
    and "occurs_before (New_event_loop (length (loops rt))) (Loop_close (length (loops rt))) evs"
proof -
  have u: "file_uploader [''jpg'', ''jpeg'', ''png''] (chosen i) = Some f"
    and cl: "clicked i = Some ''Analyze and Find Products''"
    using assms(1) by (simp_all add: analyze_action_def button_def)
  obtain err s' tevs where
    t: "try_body i (getvalue f) (length (loops rt)) (init_session_state (session rt))
          = (err, s', tevs)"
    by (cases "try_body i (getvalue f) (length (loops rt)) (init_session_state (session rt))")
  define pre :: "'a event list" where
    "pre = page_head @ display_chat_history (transcript (session rt)) @
           [File_uploader ''Choose an image...'' [''jpg'', ''jpeg'', ''png''],
            Image_upload f ''Uploaded Image'', Button ''Analyze and Find Products'',
            Spinner_enter ''Processing image...'']"
  define post :: "'a event list" where
    "post = (case err of None \<Rightarrow> [Button ''Start Over''] | Some e \<Rightarrow> [])"
  have e: "evs = pre @ [New_event_loop (length (loops rt)), Set_event_loop (length (loops rt))]
            @ tevs @ [Loop_close (length (loops rt)), Spinner_exit] @ post"
    and r: "rt' = rt\<lparr>session := s', spinner := False, loops := loops rt @ [Closed]\<rparr>"
    using assms(2) unfolding main_analyze [OF u cl] t pre_def post_def by simp_all
  show "loops rt' = loops rt @ [Closed]" by (simp add: r)
  have n: "new_loops tevs = []"
    using t by (auto simp: try_body_def run_process_def split: option.splits sum.splits)
  have p: "\<forall>ev\<in>set pre. loop_of ev = None"
    unfolding pre_def
    by (auto simp: page_head_def dest!: display_chat_history_events transcript_event_plain)
  have q: "\<forall>ev\<in>set post. loop_of ev = None"
    unfolding post_def by (auto split: option.splits)
  have np: "new_loops pre = []" "new_loops post = []"
    using no_loop_events [OF p] no_loop_events [OF q] by simp_all
  show "new_loops evs = [length (loops rt)]"
    unfolding e by (simp add: new_loops_append np n)
  show "\<forall>ev\<in>set evs. \<forall>n. loop_of ev = Some n \<longrightarrow> n = length (loops rt)"
    unfolding e using p q try_body_events [OF t] by auto
  have "New_event_loop (length (loops rt)) \<notin> set pre"
    and "Loop_close (length (loops rt)) \<notin> set pre"
    using p by force+
  then show "occurs_before (New_event_loop (length (loops rt)))
      (Loop_close (length (loops rt))) evs"
    unfolding e by (simp add: occurs_before_append)
qed

lemma run_script_loops:
  assumes "run_script i rt = (out, rt', evs)"
  shows "loops rt' = loops rt @ replicate (length (new_loops evs)) Closed
         \<and> new_loops evs = [length (loops rt)..<length (loops rt')]"
proof (cases i rule: main_split)
  case idle
  from run_script_idle [OF idle assms] no_loop_events [of evs]
  show ?thesis by auto
next
  case (action f)
  have m: "main i rt = (out, rt', evs)"
    using assms by (simp add: run_script_action [OF action])
  show ?thesis
    by (simp add: main_action_loops(1,2) [OF action m])
qed

lemma run_session_loops:
  "run_session js rt = (rt', evs) \<Longrightarrow>
     loops rt' = loops rt @ replicate (length (new_loops evs)) Closed
     \<and> new_loops evs = [length (loops rt)..<length (loops rt')]"
proof (induction js arbitrary: rt rt' evs)
  case Nil
  then show ?case by simp
next
  case (Cons i js)
  obtain out r1 e1 where s: "run_script i rt = (out, r1, e1)"
    by (cases "run_script i rt") auto
  obtain r2 e2 where t: "run_session js r1 = (r2, e2)"
    by (cases "run_session js r1") auto
  have eq: "rt' = r2" "evs = e1 @ e2"
    using Cons.prems by (simp_all add: s t)
  define k1 k2 l0 where "k1 = length (new_loops e1)" and "k2 = length (new_loops e2)"
    and "l0 = length (loops rt)"
  have a1: "loops r1 = loops rt @ replicate k1 Closed"
    unfolding k1_def by (rule run_script_loops [OF s, THEN conjunct1])
  have a2: "new_loops e1 = [l0..<length (loops r1)]"
    unfolding l0_def by (rule run_script_loops [OF s, THEN conjunct2])
  have b1: "loops r2 = loops r1 @ replicate k2 Closed"
    unfolding k2_def by (rule Cons.IH [OF t, THEN conjunct1])
  have b2: "new_loops e2 = [length (loops r1)..<length (loops r2)]"
    by (rule Cons.IH [OF t, THEN conjunct2])
  have l1: "length (loops r1) = l0 + k1" by (simp add: a1 l0_def)
  have l2: "length (loops r2) = l0 + k1 + k2" by (simp add: b1 l1)
  have "[l0..<l0 + k1 + k2] = [l0..<l0 + k1] @ [l0 + k1..<l0 + k1 + k2]"
    by (rule upt_add_eq_append) simp
  then have n: "new_loops (e1 @ e2) = [l0..<length (loops r2)]"
    by (simp only: new_loops_append a2 b2 l1 l2)
  have "length (new_loops (e1 @ e2)) = k1 + k2"
    by (simp only: new_loops_append length_append k1_def k2_def)
  then have "loops r2 = loops rt @ replicate (length (new_loops (e1 @ e2))) Closed"
    by (simp only: b1 a1 replicate_add append_assoc)
  with n show ?case
    unfolding eq l0_def by blast
qed

lemma idle_new_loops:
  assumes "\<And>f. \<not> analyze_action i f" and "main i rt = (out, rt', evs)"
  shows "new_loops evs = [] \<and> loops rt' = loops rt"
proof -
  have "\<forall>ev\<in>set evs. loop_of ev = None"
    using idle_events [OF assms] by blast
  then have "new_loops evs = []" by (simp add: no_loop_events)
  moreover have "loops rt' = loops rt"
    using assms(2) unfolding main_no_action [OF assms(1)] by auto
  ultimately show ?thesis by blast
qed

subsection \<open>The chat handle over a session\<close>

lemma handle_init_session_state: "handle (init_session_state s) = handle s"
  by (simp add: init_session_state_eq handle_def)

lemma handle_record: "handle \<lparr>messages = m, chat = Some c\<rparr> = c"
  by (simp add: handle_def)

lemma run_script_no_rerun:
  assumes "main i rt = (out, rt', evs)" and "out \<noteq> Rerun_requested"
  shows "run_script i rt = (out, rt', evs)"
  using assms by (cases out) (simp_all add: run_script_def)

lemma main_handle_kept:
  assumes "handle (session rt) = Some h" and "\<not> button ''Start Over'' i"
    and "main i rt = (out, rt', evs)"
  shows "out \<noteq> Rerun_requested" and "handle (session rt') = Some h"
    and "init_returns evs = 0" and "\<forall>l. Initialize_chat_call l \<notin> set evs"
    and "\<forall>l c b. Process_call l c b \<in> set evs \<longrightarrow> c = Some h"
proof -
  have "out \<noteq> Rerun_requested \<and> handle (session rt') = Some h
    \<and> init_returns evs = 0 \<and> (\<forall>l. Initialize_chat_call l \<notin> set evs)
    \<and> (\<forall>l c b. Process_call l c b \<in> set evs \<longrightarrow> c = Some h)"
  proof (cases i rule: main_split)
    case idle
    have e: "\<forall>ev\<in>set evs. loop_of ev = None"
      using idle_events [OF idle assms(3)] by blast
    then have "init_returns evs = 0" by (simp add: no_loop_events)
    moreover have "\<forall>l. Initialize_chat_call l \<notin> set evs"
      and "\<forall>l c b. Process_call l c b \<notin> set evs"
      using e by force+
    moreover have "out \<noteq> Rerun_requested \<and> handle (session rt') = Some h"
      using assms unfolding main_no_action [OF idle]
      by (auto simp: button_def handle_init_session_state)
    ultimately show ?thesis by blast
  next
    case (action f)
    show ?thesis
      using assms(3) unfolding main_action [OF action] assms(1)
      by (auto simp: Let_def init_returns_append history_no_loops page_head_def
          handle_init_session_state handle_record assms(1) history_free
          split: sum.splits)
  qed
  then show "out \<noteq> Rerun_requested" and "handle (session rt') = Some h"
    and "init_returns evs = 0" and "\<forall>l. Initialize_chat_call l \<notin> set evs"
    and "\<forall>l c b. Process_call l c b \<in> set evs \<longrightarrow> c = Some h"
    by blast+
qed

lemma handle_chat_update: "handle (s\<lparr>chat := Some c\<rparr>) = c"
  by (simp add: handle_def)

lemma main_handle_none:
  assumes "handle (session rt) = None" and "\<not> button ''Start Over'' i"
    and "main i rt = (out, rt', evs)"
  shows "out \<noteq> Rerun_requested
         \<and> ((handle (session rt') = None \<and> init_returns evs = 0)
            \<or> (\<exists>h. handle (session rt') = Some h \<and> init_returns evs = 1))"
proof (cases i rule: main_split)
  case idle
  have "\<forall>ev\<in>set evs. loop_of ev = None"
    using idle_events [OF idle assms(3)] by blast
  then have "init_returns evs = 0" by (simp add: no_loop_events)
  moreover have "out \<noteq> Rerun_requested \<and> handle (session rt') = None"
    using assms unfolding main_no_action [OF idle]
    by (auto simp: button_def handle_init_session_state)
  ultimately show ?thesis by blast
next
  case (action f)
  show ?thesis
    using assms(3) unfolding main_action [OF action] assms(1)
    by (auto simp: Let_def init_returns_append history_no_loops page_head_def
        handle_init_session_state handle_record handle_chat_update assms(1)
        split: sum.splits)
qed

lemma main_init_events:
  assumes "main i rt = (out, rt', evs)"
  shows "\<forall>l. Initialize_chat_call l \<in> set evs \<longrightarrow> handle (session rt) = None"
    and "\<forall>l h. Initialize_chat_return l h \<in> set evs \<longrightarrow> handle (session rt') = Some h"
proof -
  have "(\<forall>l. Initialize_chat_call l \<in> set evs \<longrightarrow> handle (session rt) = None)
     \<and> (\<forall>l h. Initialize_chat_return l h \<in> set evs \<longrightarrow> handle (session rt') = Some h)"
  proof (cases i rule: main_split)
    case idle
    have "\<forall>ev\<in>set evs. loop_of ev = None"
      using idle_events [OF idle assms] by blast
    then have "\<forall>l. Initialize_chat_call l \<notin> set evs"
      and "\<forall>l h. Initialize_chat_return l h \<notin> set evs"
      by force+
    then show ?thesis by blast
  next
    case (action f)
    show ?thesis
      using assms unfolding main_action [OF action]
      by (cases "handle (session rt)")
        (auto simp: Let_def page_head_def handle_init_session_state handle_record
          handle_chat_update history_free split: sum.splits)
  qed
  then show "\<forall>l. Initialize_chat_call l \<in> set evs \<longrightarrow> handle (session rt) = None"
    and "\<forall>l h. Initialize_chat_return l h \<in> set evs \<longrightarrow> handle (session rt') = Some h"
    by blast+
qed

lemma session_handle_kept:
  assumes "\<forall>j\<in>set js. \<not> button ''Start Over'' j"
    and "handle (session rt) = Some h" and "run_session js rt = (rt', evs)"
  shows "handle (session rt') = Some h \<and> init_returns evs = 0
         \<and> (\<forall>l. Initialize_chat_call l \<notin> set evs)
         \<and> (\<forall>l c b. Process_call l c b \<in> set evs \<longrightarrow> c = Some h)"
  using assms
proof (induction js arbitrary: rt rt' evs)
  case Nil
  then show ?case by simp
next
  case (Cons i js)
  obtain out r1 e1 where m: "main i rt = (out, r1, e1)"
    by (cases "main i rt") auto
  have nb: "\<not> button ''Start Over'' i" and rest: "\<forall>j\<in>set js. \<not> button ''Start Over'' j"
    using Cons.prems(1) by simp_all
  note k = main_handle_kept [OF Cons.prems(2) nb m]
  have s: "run_script i rt = (out, r1, e1)"
    by (rule run_script_no_rerun [OF m k(1)])
  obtain r2 e2 where t: "run_session js r1 = (r2, e2)"
    by (cases "run_session js r1") auto
  have eq: "rt' = r2" "evs = e1 @ e2"
    using Cons.prems(3) by (simp_all add: s t)
  note ih = Cons.IH [OF rest k(2) t]
  have "init_returns (e1 @ e2) = 0"
    using k(3) ih by (simp add: init_returns_append)
  moreover have "\<forall>l. Initialize_chat_call l \<notin> set (e1 @ e2)"
    using k(4) ih by simp
  moreover have "c = Some h" if "Process_call l c b \<in> set (e1 @ e2)" for l c b
  proof -
    from that have "Process_call l c b \<in> set e1 \<or> Process_call l c b \<in> set e2" by simp
    then show ?thesis using k(5) ih by blast
  qed
  ultimately show ?case
    unfolding eq using ih by blast
qed

lemma session_init_once:
  assumes "\<forall>j\<in>set js. \<not> button ''Start Over'' j" and "run_session js rt = (rt', evs)"
  shows "init_returns evs \<le> 1"
  using assms
proof (induction js arbitrary: rt rt' evs)
  case Nil
  then show ?case by simp
next
  case (Cons i js)
  obtain out r1 e1 where m: "main i rt = (out, r1, e1)"
    by (cases "main i rt") auto
  have nb: "\<not> button ''Start Over'' i" and rest: "\<forall>j\<in>set js. \<not> button ''Start Over'' j"
    using Cons.prems(1) by simp_all
  obtain r2 e2 where t: "run_session js r1 = (r2, e2)"
    by (cases "run_session js r1") auto
  show ?case
  proof (cases "handle (session rt)")
    case (Some h)
    from session_handle_kept [OF Cons.prems(1) Some Cons.prems(2)]
    show ?thesis by simp
  next
    case None
    note n = main_handle_none [OF None nb m]
    have s: "run_script i rt = (out, r1, e1)"
      by (rule run_script_no_rerun [OF m n [THEN conjunct1]])
    have eq: "evs = e1 @ e2"
      using Cons.prems(2) by (simp add: s t)
    from n [THEN conjunct2] show ?thesis
    proof
      assume "handle (session r1) = None \<and> init_returns e1 = 0"
      with Cons.IH [OF rest t] show ?thesis
        by (simp add: eq init_returns_append)
    next
      assume "\<exists>h. handle (session r1) = Some h \<and> init_returns e1 = 1"
      then obtain h where h: "handle (session r1) = Some h" and o: "init_returns e1 = 1"
        by blast
      from session_handle_kept [OF rest h t] o show ?thesis
        by (simp add: eq init_returns_append)
    qed
  qed
qed

lemma is_analyze_iff: "is_analyze i = (\<exists>f. analyze_action i f)"
  by (auto simp: is_analyze_def analyze_action_def)

lemma process_handles_append:
  "process_handles (xs @ ys) = process_handles xs @ process_handles ys"
  by (induction xs rule: process_handles.induct) simp_all

lemma no_process_handles:
  "\<forall>ev\<in>set evs. loop_of ev = None \<Longrightarrow> process_handles evs = []"
  by (induction evs rule: process_handles.induct) simp_all

lemma history_no_process:
  "process_handles (display_chat_history ms :: 'h event list) = []"
  by (rule no_process_handles)
    (auto dest!: display_chat_history_events transcript_event_plain)

lemma main_reuses_handle:
  assumes "analyze_action i f" and "handle (session rt) = Some h"
    and "main i rt = (out, rt', evs)"
  shows "Process_call (length (loops rt)) (Some h) (getvalue f) \<in> set evs"
    and "process_handles evs = [Some h]"
  using assms(3) unfolding main_action [OF assms(1)] assms(2)
  by (auto simp: Let_def page_head_def process_handles_append history_no_process
      split: sum.splits)

lemma main_stores_handle:
  assumes "analyze_action i f" and "handle (session rt) = None"
    and "chat_result i = Inr h" and "main i rt = (out, rt', evs)"
  shows "Initialize_chat_call (length (loops rt)) \<in> set evs"
    and "Initialize_chat_return (length (loops rt)) h \<in> set evs"
    and "Process_call (length (loops rt)) (Some h) (getvalue f) \<in> set evs"
    and "handle (session rt') = Some h"
  using assms(4) unfolding main_action [OF assms(1)] assms(2) assms(3)
  by (auto simp: Let_def handle_record handle_chat_update split: sum.splits)

lemma main_idle_no_process:
  assumes "\<not> is_analyze i" and "main i rt = (out, rt', evs)"
  shows "process_handles evs = []"
proof -
  have idle: "\<not> analyze_action i f" for f
    using assms(1) by (auto simp: is_analyze_iff)
  have "\<forall>ev\<in>set evs. loop_of ev = None"
    using idle_events [OF idle assms(2)] by blast
  then show ?thesis by (rule no_process_handles)
qed

lemma session_process_handles:
  assumes "\<forall>j\<in>set js. \<not> button ''Start Over'' j"
    and "handle (session rt) = Some h" and "run_session js rt = (rt', evs)"
  shows "process_handles evs = replicate (length (filter is_analyze js)) (Some h)"
  using assms
proof (induction js arbitrary: rt rt' evs)
  case Nil
  then show ?case by simp
next
  case (Cons i js)
  obtain out r1 e1 where m: "main i rt = (out, r1, e1)"
    by (cases "main i rt") auto
  have nb: "\<not> button ''Start Over'' i" and rest: "\<forall>j\<in>set js. \<not> button ''Start Over'' j"
    using Cons.prems(1) by simp_all
  note k = main_handle_kept [OF Cons.prems(2) nb m]
  have s: "run_script i rt = (out, r1, e1)"
    by (rule run_script_no_rerun [OF m k(1)])
  obtain r2 e2 where t: "run_session js r1 = (r2, e2)"
    by (cases "run_session js r1") auto
  have eq: "evs = e1 @ e2"
    using Cons.prems(3) by (simp add: s t)
  have one: "process_handles e1 = (if is_analyze i then [Some h] else [])"
  proof (cases "is_analyze i")
    case True
    then obtain f where "analyze_action i f" by (auto simp: is_analyze_iff)
    from main_reuses_handle(2) [OF this Cons.prems(2) m] True show ?thesis by simp
  next
    case False
    from main_idle_no_process [OF False m] False show ?thesis by simp
  qed
  show ?case
    unfolding eq process_handles_append one Cons.IH [OF rest k(2) t] by simp
qed

subsection \<open>The concrete runs\<close>

lemma photo_accepted: "file_uploader [''jpg'', ''jpeg'', ''png''] (Some photo) = Some photo"
  by (simp add: file_uploader_def photo_def extension.simps)

lemma text_file_rejected: "file_uploader [''jpg'', ''jpeg'', ''png''] (Some text_file) = None"
  by (simp add: file_uploader_def text_file_def extension.simps)

lemma fresh_no_handle: "handle (session fresh) = None"
  by (simp add: handle_def fresh_def)

lemma fresh_transcript: "transcript (session fresh) = []"
  by (simp add: transcript_def fresh_def)

lemma click_analyze_action: "analyze_action click_analyze photo"
  by (simp add: analyze_action_def button_def click_analyze_def photo_accepted)

lemma click_init_fails_action: "analyze_action click_init_fails photo"
  by (simp add: analyze_action_def button_def click_init_fails_def photo_accepted)

lemma click_process_fails_action: "analyze_action click_process_fails photo"
  by (simp add: analyze_action_def button_def click_process_fails_def photo_accepted)

lemma click_analyze_fresh:
  "main click_analyze fresh =
     (Finished,
      \<lparr>session = \<lparr>messages = Some [found], chat = Some (Some 7)\<rparr>, spinner = False,
       loops = [Closed]\<rparr>,
      page_head @
      [File_uploader ''Choose an image...'' [''jpg'', ''jpeg'', ''png''],
       Image_upload photo ''Uploaded Image'',
       Button ''Analyze and Find Products'',
       Spinner_enter ''Processing image...'',
       New_event_loop 0, Set_event_loop 0,
       Initialize_chat_call 0, Initialize_chat_return 0 7,
       Process_call 0 (Some 7) ''abc'', Process_return 0, Loop_close 0, Spinner_exit,
       Button ''Start Over''])"
  unfolding main_action [OF click_analyze_action]
  by (simp add: Let_def fresh_def handle_def click_analyze_def transcript_def
      init_session_state_def photo_def)

lemma click_process_fails_fresh:
  "main click_process_fails fresh =
     (Raised (CollaboratorError ''timeout''),
      \<lparr>session = \<lparr>messages = Some [], chat = Some (Some 7)\<rparr>, spinner = False,
       loops = [Closed]\<rparr>,
      page_head @
      [File_uploader ''Choose an image...'' [''jpg'', ''jpeg'', ''png''],
       Image_upload photo ''Uploaded Image'',
       Button ''Analyze and Find Products'',
       Spinner_enter ''Processing image...'',
       New_event_loop 0, Set_event_loop 0,
       Initialize_chat_call 0, Initialize_chat_return 0 7,
       Process_call 0 (Some 7) ''abc'', Process_raise 0 (CollaboratorError ''timeout''),
       Loop_close 0, Spinner_exit])"
  unfolding main_action [OF click_process_fails_action]
  by (simp add: Let_def fresh_def handle_def click_process_fails_def transcript_def
      init_session_state_def photo_def)

lemma click_init_fails_fresh:
  "main click_init_fails fresh =
     (Raised (CollaboratorError ''no endpoint''),
      \<lparr>session = \<lparr>messages = Some [], chat = Some None\<rparr>, spinner = False,
       loops = [Closed]\<rparr>,
      page_head @
      [File_uploader ''Choose an image...'' [''jpg'', ''jpeg'', ''png''],
       Image_upload photo ''Uploaded Image'',
       Button ''Analyze and Find Products'',
       Spinner_enter ''Processing image...'',
       New_event_loop 0, Set_event_loop 0,
       Initialize_chat_call 0, Initialize_chat_raise 0 (CollaboratorError ''no endpoint''),
       Loop_close 0, Spinner_exit])"
  unfolding main_action [OF click_init_fails_action]
  by (simp add: Let_def fresh_def handle_def click_init_fails_def transcript_def
      init_session_state_def photo_def)

lemma click_text_file_fresh:
  "main click_text_file fresh =
     (Finished,
      \<lparr>session = \<lparr>messages = Some [], chat = Some None\<rparr>, spinner = False, loops = []\<rparr>,
      page_head @
      [File_uploader ''Choose an image...'' [''jpg'', ''jpeg'', ''png''],
       Button ''Start Over''])"
proof -
  have "file_uploader [''jpg'', ''jpeg'', ''png''] (chosen click_text_file) = None
           \<or> clicked click_text_file \<noteq> Some ''Analyze and Find Products''"
    by (simp add: click_text_file_def text_file_rejected)
  from main_no_analyze [OF this, of fresh] show ?thesis
    by (simp add: click_text_file_def text_file_rejected fresh_def init_session_state_def
        transcript_def)
qed

lemma no_click_used:
  "main no_click used =
     (Finished, used,
      page_head @
      [Chat_message ''user'', Write ''Uploaded image'', Image ''/tmp/a.png'',
       Chat_message ''assistant'', Write ''Found 3 matching items'',
       File_uploader ''Choose an image...'' [''jpg'', ''jpeg'', ''png''],
       Button ''Start Over''])"
proof -
  have "file_uploader [''jpg'', ''jpeg'', ''png''] (chosen no_click) = None
           \<or> clicked no_click \<noteq> Some ''Analyze and Find Products''"
    by (simp add: no_click_def)
  from main_no_analyze [OF this, of used] show ?thesis
    by (simp add: no_click_def used_def init_session_state_def transcript_def
        file_uploader_def display_message_def pictured_def found_def)
qed

lemma click_process_fails_second:
  "main click_process_fails
     \<lparr>session = \<lparr>messages = Some [found], chat = Some (Some 7)\<rparr>, spinner = False,
      loops = [Closed]\<rparr> =
     (Raised (CollaboratorError ''timeout''),
      \<lparr>session = \<lparr>messages = Some [found], chat = Some (Some 7)\<rparr>, spinner = False,
       loops = [Closed, Closed]\<rparr>,
      page_head @
      [Chat_message ''assistant'', Write ''Found 3 matching items'',
       File_uploader ''Choose an image...'' [''jpg'', ''jpeg'', ''png''],
       Image_upload photo ''Uploaded Image'',
       Button ''Analyze and Find Products'',
       Spinner_enter ''Processing image...'',
       New_event_loop 1, Set_event_loop 1,
       Process_call 1 (Some 7) ''abc'', Process_raise 1 (CollaboratorError ''timeout''),
       Loop_close 1, Spinner_exit])"
  unfolding main_action [OF click_process_fails_action]
  by (simp add: Let_def handle_def click_process_fails_def transcript_def
      init_session_state_def photo_def display_message_def found_def)

lemma two_clicks:
  "run_session [click_analyze, click_process_fails] fresh =
     (\<lparr>session = \<lparr>messages = Some [found], chat = Some (Some 7)\<rparr>, spinner = False,
       loops = [Closed, Closed]\<rparr>,
      snd (snd (main click_analyze fresh)) @
      page_head @
      [Chat_message ''assistant'', Write ''Found 3 matching items'',
       File_uploader ''Choose an image...'' [''jpg'', ''jpeg'', ''png''],
       Image_upload photo ''Uploaded Image'',
       Button ''Analyze and Find Products'',
       Spinner_enter ''Processing image...'',
       New_event_loop 1, Set_event_loop 1,
       Process_call 1 (Some 7) ''abc'', Process_raise 1 (CollaboratorError ''timeout''),
       Loop_close 1, Spinner_exit])"
  by (simp add: run_script_def click_analyze_fresh click_process_fails_second)

lemma two_clicks_no_reset:
  "\<forall>j\<in>set [click_analyze, click_process_fails]. \<not> button ''Start Over'' j"
  by (simp add: button_def click_analyze_def click_process_fails_def)

lemma used_handle: "handle (session used) = Some 7"
  by (simp add: used_def handle_def)

lemma used_loops: "length (loops used) = 1"
  by (simp add: used_def)

lemma photo_bytes: "getvalue photo = ''abc''"
  by (simp add: photo_def)

lemma two_clicks_analyze:
  "filter is_analyze [click_analyze, click_process_fails] = [click_analyze, click_process_fails]"
  using click_analyze_action click_process_fails_action by (auto simp: is_analyze_iff)

section \<open>Properties of the script\<close>

text \<open>
  C1. \<open>initialize_chat\<close> is called in a run only when the store holds no handle, and
  the handle it returns is in the store when the run is over: an analyze action on a
  store without handle calls \<open>initialize_chat\<close>, stores the handle returned and calls
  \<open>process_image_and_get_responses\<close> with it. An analyze action on a store that holds
  a handle \<open>h\<close> calls \<open>process_image_and_get_responses\<close> once, with \<open>h\<close>, does not call
  \<open>initialize_chat\<close>, and leaves \<open>h\<close> in the store. In a session without reset
  \<open>initialize_chat\<close> returns a handle at most once; and from a store that holds \<open>h\<close>,
  no interaction calls \<open>initialize_chat\<close>, every analyze action of the session calls
  \<open>process_image_and_get_responses\<close> with \<open>h\<close>, and the store still holds \<open>h\<close> at the
  end.
\<close>

theorem chat_initialized_once:
  "(case main i rt of (out, rt', evs) \<Rightarrow>
      (\<forall>l. Initialize_chat_call l \<in> set evs \<longrightarrow> handle (session rt) = None)
      \<and> (\<forall>l h. Initialize_chat_return l h \<in> set evs \<longrightarrow> handle (session rt') = Some h)
      \<and> (\<forall>f h. analyze_action i f \<and> handle (session rt) = None \<and> chat_result i = Inr h \<longrightarrow>
            Initialize_chat_call (length (loops rt)) \<in> set evs
            \<and> Initialize_chat_return (length (loops rt)) h \<in> set evs
            \<and> Process_call (length (loops rt)) (Some h) (getvalue f) \<in> set evs
            \<and> handle (session rt') = Some h)
      \<and> (\<forall>f h. analyze_action i f \<and> handle (session rt) = Some h \<longrightarrow>
            Process_call (length (loops rt)) (Some h) (getvalue f) \<in> set evs
            \<and> process_handles evs = [Some h]
            \<and> (\<forall>l. Initialize_chat_call l \<notin> set evs)
            \<and> handle (session rt') = Some h))
   \<and> ((\<forall>j\<in>set js. \<not> button ''Start Over'' j) \<longrightarrow>
        (case run_session js rt of (rt', evs) \<Rightarrow>
           init_returns evs \<le> 1
           \<and> (\<forall>h. handle (session rt) = Some h \<longrightarrow>
                 handle (session rt') = Some h
                 \<and> (\<forall>l. Initialize_chat_call l \<notin> set evs)
                 \<and> (\<forall>l c b. Process_call l c b \<in> set evs \<longrightarrow> c = Some h)
                 \<and> process_handles evs = replicate (length (filter is_analyze js)) (Some h))))"
proof -
  obtain out rt' evs where m: "main i rt = (out, rt', evs)"
    by (cases "main i rt") auto
  obtain rt'' evs' where s: "run_session js rt = (rt'', evs')"
    by (cases "run_session js rt") auto
  note a = main_init_events [OF m]
  have c: "Initialize_chat_call (length (loops rt)) \<in> set evs
            \<and> Initialize_chat_return (length (loops rt)) h \<in> set evs
            \<and> Process_call (length (loops rt)) (Some h) (getvalue f) \<in> set evs
            \<and> handle (session rt') = Some h"
    if "analyze_action i f" "handle (session rt) = None" "chat_result i = Inr h" for f h
    using main_stores_handle [OF that m] by blast
  have d: "Process_call (length (loops rt)) (Some h) (getvalue f) \<in> set evs
            \<and> process_handles evs = [Some h]
            \<and> (\<forall>l. Initialize_chat_call l \<notin> set evs)
            \<and> handle (session rt') = Some h"
    if x: "analyze_action i f" and y: "handle (session rt) = Some h" for f h
  proof -
    have nb: "\<not> button ''Start Over'' i"
      using x by (simp add: analyze_action_def button_def)
    from main_reuses_handle [OF x y m] main_handle_kept(2,4) [OF y nb m]
    show ?thesis by blast
  qed
  have b: "init_returns evs' \<le> 1
           \<and> (\<forall>h. handle (session rt) = Some h \<longrightarrow>
                 handle (session rt'') = Some h
                 \<and> (\<forall>l. Initialize_chat_call l \<notin> set evs')
                 \<and> (\<forall>l c b. Process_call l c b \<in> set evs' \<longrightarrow> c = Some h)
                 \<and> process_handles evs' = replicate (length (filter is_analyze js)) (Some h))"
    if n: "\<forall>j\<in>set js. \<not> button ''Start Over'' j"
    using session_init_once [OF n s] session_handle_kept [OF n _ s]
      session_process_handles [OF n _ s] by blast
  show ?thesis
    unfolding m s prod.case using a b c d by blast
qed

theorem chat_initialized_once_witness:
  "\<not> button ''Start Over'' click_analyze \<and> \<not> button ''Start Over'' click_process_fails
   \<and> Initialize_chat_call 0 \<in> set (snd (snd (main click_analyze fresh)))
   \<and> handle (session fresh) = None
   \<and> Initialize_chat_return 0 7 \<in> set (snd (snd (main click_analyze fresh)))
   \<and> handle (session (fst (snd (main click_analyze fresh)))) = Some 7
   \<and> init_returns (snd (run_session [click_analyze, click_process_fails] fresh)) \<le> 1
   \<and> analyze_action click_analyze photo \<and> handle (session used) = Some 7
   \<and> Process_call 1 (Some 7) ''abc'' \<in> set (snd (snd (main click_analyze used)))
   \<and> process_handles (snd (snd (main click_analyze used))) = [Some 7]
   \<and> handle (session (fst (snd (main click_analyze used)))) = Some 7
   \<and> process_handles (snd (run_session [click_analyze, click_process_fails] used))
       = [Some 7, Some 7]
   \<and> handle (session (fst (run_session [click_analyze, click_process_fails] used))) = Some 7"
proof -
  note t = chat_initialized_once [where i = click_analyze and rt = fresh
      and js = "[click_analyze, click_process_fails]"]
  note u = chat_initialized_once [where i = click_analyze and rt = used
      and js = "[click_analyze, click_process_fails]"]
  have c: "Initialize_chat_call 0 \<in> set (snd (snd (main click_analyze fresh)))"
    and r: "Initialize_chat_return 0 7 \<in> set (snd (snd (main click_analyze fresh)))"
    by (simp_all add: click_analyze_fresh)
  have "handle (session (fst (snd (main click_analyze fresh)))) = Some 7"
    using t [THEN conjunct1] r by (simp add: split_beta)
  moreover have "init_returns (snd (run_session [click_analyze, click_process_fails] fresh)) \<le> 1"
    using t [THEN conjunct2, THEN mp, OF two_clicks_no_reset]
    by (simp only: split_beta)
  moreover have "Process_call 1 (Some 7) ''abc'' \<in> set (snd (snd (main click_analyze used)))
     \<and> process_handles (snd (snd (main click_analyze used))) = [Some 7]
     \<and> handle (session (fst (snd (main click_analyze used)))) = Some 7"
  proof -
    have "Process_call (length (loops used)) (Some 7) (getvalue photo)
          \<in> set (snd (snd (main click_analyze used)))
       \<and> process_handles (snd (snd (main click_analyze used))) = [Some 7]
       \<and> (\<forall>l. Initialize_chat_call l \<notin> set (snd (snd (main click_analyze used))))
       \<and> handle (session (fst (snd (main click_analyze used)))) = Some 7"
      using u [THEN conjunct1] click_analyze_action used_handle
      by (simp only: split_beta) blast
    then show ?thesis
      by (simp add: used_loops photo_bytes)
  qed
  moreover have "process_handles (snd (run_session [click_analyze, click_process_fails] used))
       = [Some 7, Some 7]
     \<and> handle (session (fst (run_session [click_analyze, click_process_fails] used))) = Some 7"
    using u [THEN conjunct2, THEN mp, OF two_clicks_no_reset] used_handle
    by (simp only: split_beta two_clicks_analyze) simp
  ultimately show ?thesis
    using two_clicks_no_reset c r fresh_no_handle click_analyze_action used_handle by simp
qed

text \<open>
  C2. Whatever the session holds, a run triggered by the reset button clears the store
  (both keys are gone when \<open>main\<close> stops) and asks for a rerun; after the rerun the
  store holds the empty transcript and \<open>None\<close> as the chat handle, and the rerun shows
  no transcript entry.
\<close>

theorem reset_clears:
  assumes "button ''Start Over'' i"
  shows "fst (main i rt) = Rerun_requested
         \<and> fst (snd (main i rt)) = rt\<lparr>session := \<lparr>messages = None, chat = None\<rparr>\<rparr>
         \<and> sublist [Session_clear, Rerun] (snd (snd (main i rt)))
         \<and> fst (run_script i rt) = Finished
         \<and> fst (snd (run_script i rt)) = rt\<lparr>session := \<lparr>messages = Some [], chat = Some None\<rparr>\<rparr>
         \<and> filter is_transcript_event
              (snd (snd (main (i\<lparr>clicked := None\<rparr>) (fst (snd (main i rt)))))) = []"
proof -
  have c: "clicked i = Some ''Start Over''"
    using assms by (simp add: button_def)
  then have idle: "\<not> analyze_action i f" for f
    by (simp add: analyze_action_def button_def)
  have idle': "\<not> analyze_action (i\<lparr>clicked := None\<rparr>) f" for f
    by (simp add: analyze_action_def button_def)
  have s: "sublist [Session_clear, Rerun] (p @ [b, Session_clear, Rerun])"
    for p :: "'x event list" and b
  proof -
    have "p @ [b, Session_clear, Rerun] = (p @ [b]) @ [Session_clear, Rerun] @ []" by simp
    then show ?thesis unfolding sublist_def by blast
  qed
  have m: "main i rt = (Rerun_requested, rt\<lparr>session := \<lparr>messages = None, chat = None\<rparr>\<rparr>,
      (page_head @ display_chat_history (transcript (session rt)) @
      [File_uploader ''Choose an image...'' [''jpg'', ''jpeg'', ''png'']] @
      (case file_uploader [''jpg'', ''jpeg'', ''png''] (chosen i) of
         None \<Rightarrow> []
       | Some f \<Rightarrow> [Image_upload f ''Uploaded Image'', Button ''Analyze and Find Products'']))
      @ [Button ''Start Over'', Session_clear, Rerun])"
    unfolding main_no_action [OF idle] by (simp add: c)
  have m': "main (i\<lparr>clicked := None\<rparr>) (rt\<lparr>session := \<lparr>messages = None, chat = None\<rparr>\<rparr>) =
     (Finished, rt\<lparr>session := \<lparr>messages = Some [], chat = Some None\<rparr>\<rparr>,
      page_head @
      [File_uploader ''Choose an image...'' [''jpg'', ''jpeg'', ''png'']] @
      (case file_uploader [''jpg'', ''jpeg'', ''png''] (chosen i) of
         None \<Rightarrow> []
       | Some f \<Rightarrow> [Image_upload f ''Uploaded Image'', Button ''Analyze and Find Products'']) @
      [Button ''Start Over''])"
    unfolding main_no_action [OF idle']
    by (simp add: init_session_state_def transcript_def)
  have r: "run_script i rt =
     (Finished, rt\<lparr>session := \<lparr>messages = Some [], chat = Some None\<rparr>\<rparr>,
      snd (snd (main i rt)) @
      snd (snd (main (i\<lparr>clicked := None\<rparr>) (rt\<lparr>session := \<lparr>messages = None, chat = None\<rparr>\<rparr>))))"
    by (simp add: run_script_def m m')
  have "sublist [Session_clear, Rerun] (snd (snd (main i rt)))"
    unfolding m snd_conv by (rule s)
  moreover have "filter is_transcript_event
      (snd (snd (main (i\<lparr>clicked := None\<rparr>) (fst (snd (main i rt)))))) = []"
    by (simp add: m m' page_head_def split: option.splits)
  ultimately show ?thesis
    by (simp add: r) (simp add: m)
qed

theorem reset_clears_witness:
  "button ''Start Over'' click_start_over
   \<and> fst (main click_start_over used) = Rerun_requested
   \<and> session (fst (snd (main click_start_over used))) = \<lparr>messages = None, chat = None\<rparr>
   \<and> fst (snd (run_script click_start_over used)) =
       \<lparr>session = \<lparr>messages = Some [], chat = Some None\<rparr>, spinner = False, loops = [Closed]\<rparr>"
proof -
  have b: "button ''Start Over'' click_start_over"
    by (simp add: button_def click_start_over_def)
  from reset_clears [OF b, of used] b show ?thesis
    by (simp add: used_def)
qed

text \<open>
  C3. In an analyze action that needs initialization (the store holds no handle), the
  return of \<open>initialize_chat\<close> comes strictly before the call of
  \<open>process_image_and_get_responses\<close>, and the return or the failure of the calls comes
  strictly before the spinner is left; when \<open>initialize_chat\<close> fails the second call is
  not made at all. In no run is \<open>process_image_and_get_responses\<close> called with \<open>None\<close> as
  the handle, and the spinner is not shown once the run is over.
\<close>

theorem analyze_ordering:
  assumes "analyze_action i f" and "handle (session rt) = None"
    and "main i rt = (out, rt', evs)"
  shows "(case chat_result i of
            Inl e \<Rightarrow>
              occurs_before (Initialize_chat_raise (length (loops rt)) e) Spinner_exit evs
              \<and> (\<forall>l c b. Process_call l c b \<notin> set evs)
          | Inr h \<Rightarrow>
              occurs_before (Initialize_chat_return (length (loops rt)) h)
                (Process_call (length (loops rt)) (Some h) (getvalue f)) evs
              \<and> (occurs_before (Process_return (length (loops rt))) Spinner_exit evs
                 \<or> (\<exists>e. occurs_before (Process_raise (length (loops rt)) e) Spinner_exit evs)))
         \<and> (\<forall>l c b. Process_call l c b \<in> set evs \<longrightarrow> c \<noteq> None)
         \<and> \<not> spinner rt'"
  using assms(3) unfolding main_action [OF assms(1)] assms(2)
  by (auto simp: Let_def page_head_def occurs_before_append history_free
      split: sum.splits)

theorem analyze_ordering_witness:
  "analyze_action click_analyze photo \<and> handle (session fresh) = None
   \<and> occurs_before (Initialize_chat_return 0 7) (Process_call 0 (Some 7) ''abc'')
        (snd (snd (main click_analyze fresh)))
   \<and> occurs_before (Process_return 0) Spinner_exit (snd (snd (main click_analyze fresh)))
   \<and> \<not> spinner (fst (snd (main click_analyze fresh)))"
  using analyze_ordering [OF click_analyze_action fresh_no_handle click_analyze_fresh]
    click_analyze_action fresh_no_handle click_analyze_fresh
  by (simp add: click_analyze_def fresh_def photo_def page_head_def)

text \<open>
  C4. A run that performs the analyze action creates exactly one event loop, a new one
  (its position did not exist before), every loop effect of the run is on that loop,
  the loop is closed after it was created, and it is closed when the run is over,
  however the two awaited calls end; a run without analyze action creates no loop. Over
  a session the loops created are pairwise different, and all of them are closed at
  the end.
\<close>

theorem fresh_loop_closed:
  "(case main i rt of (out, rt', evs) \<Rightarrow>
      (\<forall>f. analyze_action i f \<longrightarrow>
         new_loops evs = [length (loops rt)]
         \<and> (\<forall>ev\<in>set evs. \<forall>n. loop_of ev = Some n \<longrightarrow> n = length (loops rt))
         \<and> occurs_before (New_event_loop (length (loops rt)))
              (Loop_close (length (loops rt))) evs
         \<and> loops rt' = loops rt @ [Closed])
      \<and> ((\<forall>f. \<not> analyze_action i f) \<longrightarrow> new_loops evs = [] \<and> loops rt' = loops rt))
   \<and> (case run_session js rt of (rt', evs) \<Rightarrow>
         loops rt' = loops rt @ replicate (length (new_loops evs)) Closed
         \<and> new_loops evs = [length (loops rt)..<length (loops rt')])"
proof -
  obtain out rt' evs where m: "main i rt = (out, rt', evs)"
    by (cases "main i rt") auto
  obtain rt'' evs' where s: "run_session js rt = (rt'', evs')"
    by (cases "run_session js rt") auto
  have a: "\<forall>f. analyze_action i f \<longrightarrow>
         new_loops evs = [length (loops rt)]
         \<and> (\<forall>ev\<in>set evs. \<forall>n. loop_of ev = Some n \<longrightarrow> n = length (loops rt))
         \<and> occurs_before (New_event_loop (length (loops rt)))
              (Loop_close (length (loops rt))) evs
         \<and> loops rt' = loops rt @ [Closed]"
    using main_action_loops [OF _ m] by blast
  have b: "(\<forall>f. \<not> analyze_action i f) \<longrightarrow> new_loops evs = [] \<and> loops rt' = loops rt"
    using idle_new_loops [OF _ m] by blast
  note c = run_session_loops [OF s]
  show ?thesis
    unfolding m s prod.case by (intro conjI a b c [THEN conjunct1] c [THEN conjunct2])
qed

theorem fresh_loop_closed_witness:
  "analyze_action click_analyze photo
   \<and> new_loops (snd (snd (main click_analyze fresh))) = [0]
   \<and> loops (fst (snd (main click_analyze fresh))) = [Closed]
   \<and> loops (fst (run_session [click_analyze, click_process_fails] fresh)) = [Closed, Closed]
   \<and> new_loops (snd (run_session [click_analyze, click_process_fails] fresh)) = [0, 1]"
proof -
  have l: "loops fresh = []" by (simp add: fresh_def)
  note t = fresh_loop_closed [where i = click_analyze and rt = fresh
      and js = "[click_analyze, click_process_fails]"]
  have a: "new_loops (snd (snd (main click_analyze fresh))) = [0]
      \<and> loops (fst (snd (main click_analyze fresh))) = [Closed]"
    using t [THEN conjunct1] click_analyze_action
    by (simp add: click_analyze_fresh l)
  have b: "loops (fst (run_session [click_analyze, click_process_fails] fresh)) = [Closed, Closed]"
    unfolding two_clicks fst_conv by simp
  have "new_loops (snd (run_session [click_analyze, click_process_fails] fresh)) =
      [length (loops fresh)..<length [Closed, Closed]]"
    using t [THEN conjunct2, unfolded two_clicks prod.case, THEN conjunct2]
    unfolding two_clicks snd_conv by simp
  then have "new_loops (snd (run_session [click_analyze, click_process_fails] fresh)) = [0, 1]"
    unfolding l by (simp add: upt_rec)
  with a b click_analyze_action show ?thesis by blast
qed

text \<open>
  C5. If \<open>process_image_and_get_responses\<close> raises during a run, the run ends with that
  error, the spinner has been left (after the failure, as the last effect of the run)
  and is not shown, and the transcript in the store is the one the run started with:
  no message was appended.
\<close>

theorem process_failure:
  assumes "main i rt = (out, rt', evs)" and "Process_raise l e \<in> set evs"
  shows "out = Raised e \<and> \<not> spinner rt'
         \<and> occurs_before (Process_raise l e) Spinner_exit evs \<and> last evs = Spinner_exit
         \<and> messages (session rt') = Some (transcript (session rt))"
proof (cases i rule: main_split)
  case idle
  from idle_events [OF idle assms(1)] assms(2) show ?thesis by force
next
  case (action f)
  show ?thesis
    using assms unfolding main_action [OF action]
    by (auto simp: Let_def page_head_def occurs_before_append history_free
        init_session_state_eq split: sum.splits option.splits)
qed

theorem process_failure_witness:
  "Process_raise 0 (CollaboratorError ''timeout'') \<in> set (snd (snd (main click_process_fails fresh)))
   \<and> fst (main click_process_fails fresh) = Raised (CollaboratorError ''timeout'')
   \<and> \<not> spinner (fst (snd (main click_process_fails fresh)))
   \<and> last (snd (snd (main click_process_fails fresh))) = Spinner_exit
   \<and> messages (session (fst (snd (main click_process_fails fresh)))) = Some []"
proof -
  have m: "Process_raise 0 (CollaboratorError ''timeout'')
      \<in> set (snd (snd (main click_process_fails fresh)))"
    by (simp add: click_process_fails_fresh)
  from process_failure [OF click_process_fails_fresh m [unfolded click_process_fails_fresh snd_conv]] m
  show ?thesis
    by (simp add: click_process_fails_fresh fresh_transcript)
qed

text \<open>
  C6. A run of \<open>main\<close> ends with an error exactly when \<open>initialize_chat\<close> or
  \<open>process_image_and_get_responses\<close> raised it in that run: the error is neither caught
  nor replaced by another one, and the script run as a whole ends with it.
\<close>

theorem errors_propagate:
  assumes "main i rt = (out, rt', evs)"
  shows "((out = Raised e) =
            (\<exists>l. Initialize_chat_raise l e \<in> set evs \<or> Process_raise l e \<in> set evs))
         \<and> (out = Raised e \<longrightarrow> fst (run_script i rt) = Raised e)"
proof -
  have "(out = Raised e) =
           (\<exists>l. Initialize_chat_raise l e \<in> set evs \<or> Process_raise l e \<in> set evs)"
  proof (cases i rule: main_split)
    case idle
    from idle_events [OF idle assms]
    have "\<forall>l. Initialize_chat_raise l e \<notin> set evs \<and> Process_raise l e \<notin> set evs" by force
    moreover have "out \<noteq> Raised e"
      using assms unfolding main_no_action [OF idle] by (auto split: if_splits)
    ultimately show ?thesis by blast
  next
    case (action f)
    show ?thesis
      using assms unfolding main_action [OF action]
      by (auto simp: Let_def page_head_def history_free split: sum.splits option.splits)
  qed
  moreover have "out = Raised e \<longrightarrow> fst (run_script i rt) = Raised e"
    using assms by (simp add: run_script_def)
  ultimately show ?thesis by blast
qed

theorem errors_propagate_witness:
  "Initialize_chat_raise 0 (CollaboratorError ''no endpoint'')
     \<in> set (snd (snd (main click_init_fails fresh)))
   \<and> fst (main click_init_fails fresh) = Raised (CollaboratorError ''no endpoint'')
   \<and> fst (run_script click_init_fails fresh) = Raised (CollaboratorError ''no endpoint'')"
  using errors_propagate [OF click_init_fails_fresh, of "CollaboratorError ''no endpoint''"]
  by (simp add: click_init_fails_fresh)

text \<open>
  C7. In every run: the analyze button is drawn only when a file is uploaded; every
  effect of the analyze pipeline (spinner, event loop, collaborator calls) occurs only in
  a run that has a file from the upload control and the analyze click; every call of
  \<open>process_image_and_get_responses\<close> gets the bytes of the uploaded file; and with no
  file the run draws the page, the upload control and the reset button only.
\<close>

theorem analyze_needs_upload:
  assumes "main i rt = (out, rt', evs)"
  shows "(Button ''Analyze and Find Products'' \<in> set evs \<longrightarrow>
            (\<exists>f. chosen i = Some f))
         \<and> (\<forall>ev\<in>set evs. in_pipeline ev \<longrightarrow> (\<exists>f. chosen i = Some f \<and> analyze_action i f))
         \<and> (\<forall>l c b. Process_call l c b \<in> set evs \<longrightarrow>
               (\<exists>f. chosen i = Some f \<and> b = getvalue f))
         \<and> (chosen i = None \<longrightarrow>
               evs = page_head @ display_chat_history (transcript (session rt)) @
                     [File_uploader ''Choose an image...'' [''jpg'', ''jpeg'', ''png'']] @
                     (if button ''Start Over'' i
                      then [Button ''Start Over'', Session_clear, Rerun]
                      else [Button ''Start Over'']))"
proof (cases i rule: main_split)
  case idle
  show ?thesis
    using assms unfolding main_no_action [OF idle]
    by (auto simp: page_head_def button_def file_uploader_def
        split: option.splits if_splits
        dest!: display_chat_history_events transcript_event_other file_uploader_Some)
next
  case (action f)
  then have c: "chosen i = Some f"
    by (auto simp: analyze_action_def dest: file_uploader_Some)
  show ?thesis
    using assms action c unfolding main_action [OF action]
    by (auto simp: Let_def page_head_def split: sum.splits option.splits
        dest!: display_chat_history_events transcript_event_other)
qed

theorem analyze_needs_upload_witness:
  "Process_call 0 (Some 7) ''abc'' \<in> set (snd (snd (main click_analyze fresh)))
   \<and> in_pipeline (Process_call 0 (Some 7) ''abc'' :: nat event)
   \<and> chosen click_analyze = Some photo \<and> analyze_action click_analyze photo
   \<and> getvalue photo = ''abc''"
proof -
  have "Process_call 0 (Some 7) ''abc'' \<in> set (snd (snd (main click_analyze fresh)))"
    by (simp add: click_analyze_fresh)
  moreover have "chosen click_analyze = Some photo"
    by (simp add: click_analyze_def)
  moreover have "getvalue photo = ''abc''"
    by (simp add: photo_def)
  ultimately show ?thesis
    using analyze_needs_upload [OF click_analyze_fresh] click_analyze_action by simp
qed

text \<open>
  C8. In every run the upload control is read once, for a single file, with the types
  jpg, jpeg and png; a file it returns has one of these extensions and its preview is
  drawn directly after the control; for a chosen file with another extension no preview
  is drawn, the analyze button is not drawn and \<open>process_image_and_get_responses\<close> is not
  called.
\<close>

theorem upload_control:
  assumes "main i rt = (out, rt', evs)"
  shows "filter is_uploader evs = [File_uploader ''Choose an image...'' [''jpg'', ''jpeg'', ''png'']]
         \<and> (\<forall>f. file_uploader [''jpg'', ''jpeg'', ''png''] (chosen i) = Some f \<longrightarrow>
               chosen i = Some f
               \<and> extension (name f) \<in> {Some ''jpg'', Some ''jpeg'', Some ''png''}
               \<and> sublist [File_uploader ''Choose an image...'' [''jpg'', ''jpeg'', ''png''],
                           Image_upload f ''Uploaded Image''] evs)
         \<and> (\<forall>f. chosen i = Some f
                 \<and> extension (name f) \<notin> {Some ''jpg'', Some ''jpeg'', Some ''png''} \<longrightarrow>
               filter is_preview evs = []
               \<and> (\<forall>l c b. Process_call l c b \<notin> set evs)
               \<and> Button ''Analyze and Find Products'' \<notin> set evs)"
proof -
  from assms obtain rest where
    e: "evs = (page_head @ display_chat_history (transcript (session rt))) @
           [File_uploader ''Choose an image...'' [''jpg'', ''jpeg'', ''png'']] @
           (case file_uploader [''jpg'', ''jpeg'', ''png''] (chosen i) of
              None \<Rightarrow> []
            | Some f \<Rightarrow> [Image_upload f ''Uploaded Image'', Button ''Analyze and Find Products''])
           @ rest"
    and r: "\<forall>ev\<in>set rest. \<not> is_uploader ev \<and> \<not> is_preview ev
           \<and> \<not> is_transcript_event ev \<and> ev \<noteq> Button ''Analyze and Find Products''"
    by (rule main_shape)
  have fr: "filter is_uploader rest = []" "filter is_preview rest = []"
    using r by (auto simp: filter_empty_conv)
  have fh: "filter is_uploader (display_chat_history ms) = []"
    "filter is_preview (display_chat_history ms) = []" for ms :: "message list"
    by (simp_all add: filter_history transcript_event_other)
  have one: "filter is_uploader evs =
      [File_uploader ''Choose an image...'' [''jpg'', ''jpeg'', ''png'']]"
    unfolding e by (simp add: fr fh page_head_def split: option.splits)
  have two: "chosen i = Some f
       \<and> extension (name f) \<in> {Some ''jpg'', Some ''jpeg'', Some ''png''}
       \<and> sublist [File_uploader ''Choose an image...'' [''jpg'', ''jpeg'', ''png''],
                   Image_upload f ''Uploaded Image''] evs"
    if u: "file_uploader [''jpg'', ''jpeg'', ''png''] (chosen i) = Some f" for f
  proof -
    have "evs = (page_head @ display_chat_history (transcript (session rt))) @
           [File_uploader ''Choose an image...'' [''jpg'', ''jpeg'', ''png''],
            Image_upload f ''Uploaded Image''] @ (Button ''Analyze and Find Products'' # rest)"
      unfolding e u by simp
    then have "sublist [File_uploader ''Choose an image...'' [''jpg'', ''jpeg'', ''png''],
                   Image_upload f ''Uploaded Image''] evs"
      unfolding sublist_def by blast
    then show ?thesis
      using file_uploader_Some [OF u] by auto
  qed
  have three: "filter is_preview evs = []
       \<and> (\<forall>l c b. Process_call l c b \<notin> set evs)
       \<and> Button ''Analyze and Find Products'' \<notin> set evs"
    if c: "chosen i = Some f"
      and x: "extension (name f) \<notin> {Some ''jpg'', Some ''jpeg'', Some ''png''}" for f
  proof -
    have u: "file_uploader [''jpg'', ''jpeg'', ''png''] (chosen i) = None"
      using c x by (auto simp: file_uploader_def split: option.splits)
    then have idle: "\<not> analyze_action i g" for g
      by (simp add: analyze_action_def)
    have p: "filter is_preview evs = []"
      unfolding e u by (simp add: fr fh page_head_def)
    have b: "Button ''Analyze and Find Products'' \<notin> set evs"
      using r unfolding e u
      by (auto simp: page_head_def dest!: display_chat_history_events transcript_event_other)
    have "Process_call l a b \<notin> set evs" for l a b
      using idle_events [OF idle assms] by force
    with p b show ?thesis by blast
  qed
  from one two three show ?thesis by blast
qed

theorem upload_control_witness:
  "chosen click_text_file = Some text_file
   \<and> extension (name text_file) \<notin> {Some ''jpg'', Some ''jpeg'', Some ''png''}
   \<and> filter is_preview (snd (snd (main click_text_file fresh))) = []
   \<and> Button ''Analyze and Find Products'' \<notin> set (snd (snd (main click_text_file fresh)))
   \<and> file_uploader [''jpg'', ''jpeg'', ''png''] (chosen click_analyze) = Some photo
   \<and> sublist [File_uploader ''Choose an image...'' [''jpg'', ''jpeg'', ''png''],
               Image_upload photo ''Uploaded Image''] (snd (snd (main click_analyze fresh)))"
proof -
  have c: "chosen click_text_file = Some text_file"
    by (simp add: click_text_file_def)
  have x: "extension (name text_file) \<notin> {Some ''jpg'', Some ''jpeg'', Some ''png''}"
    by (simp add: text_file_def extension.simps)
  have u: "file_uploader [''jpg'', ''jpeg'', ''png''] (chosen click_analyze) = Some photo"
    by (simp add: click_analyze_def photo_accepted)
  from upload_control [OF click_text_file_fresh] upload_control [OF click_analyze_fresh] c x u
  show ?thesis by (simp add: click_text_file_fresh click_analyze_fresh)
qed

text \<open>
  C9. The transcript entries a run draws are, for the messages of the store in their
  order and for every one of them, the role, the content and, when the message has a
  non-empty image path, the image; no message is skipped. Drawing changes nothing: a
  run without analyze action and without reset leaves the transcript and the handle as
  they were.
\<close>

theorem transcript_render:
  assumes "main i rt = (out, rt', evs)"
  shows "filter is_transcript_event evs =
           concat (map (\<lambda>m. Chat_message (role m) # Write (content m) # map Image (image_of m))
                    (transcript (session rt)))
         \<and> ((\<forall>f. \<not> analyze_action i f) \<and> \<not> button ''Start Over'' i \<longrightarrow>
               out = Finished \<and> rt' = rt\<lparr>session := init_session_state (session rt)\<rparr>
               \<and> messages (session rt') = Some (transcript (session rt))
               \<and> handle (session rt') = handle (session rt))"
proof -
  from assms obtain rest where
    e: "evs = (page_head @ display_chat_history (transcript (session rt))) @
           [File_uploader ''Choose an image...'' [''jpg'', ''jpeg'', ''png'']] @
           (case file_uploader [''jpg'', ''jpeg'', ''png''] (chosen i) of
              None \<Rightarrow> []
            | Some f \<Rightarrow> [Image_upload f ''Uploaded Image'', Button ''Analyze and Find Products''])
           @ rest"
    and r: "\<forall>ev\<in>set rest. \<not> is_uploader ev \<and> \<not> is_preview ev
           \<and> \<not> is_transcript_event ev \<and> ev \<noteq> Button ''Analyze and Find Products''"
    by (rule main_shape)
  have fr: "filter is_transcript_event rest = []"
    using r by (auto simp: filter_empty_conv)
  have "filter is_transcript_event evs = display_chat_history (transcript (session rt))"
    unfolding e by (simp add: fr filter_history_all page_head_def split: option.splits)
  then have one: "filter is_transcript_event evs =
           concat (map (\<lambda>m. Chat_message (role m) # Write (content m) # map Image (image_of m))
                    (transcript (session rt)))"
    by (simp only: display_chat_history_eq)
  have two: "out = Finished \<and> rt' = rt\<lparr>session := init_session_state (session rt)\<rparr>
               \<and> messages (session rt') = Some (transcript (session rt))
               \<and> handle (session rt') = handle (session rt)"
    if "\<forall>f. \<not> analyze_action i f" and "\<not> button ''Start Over'' i"
  proof -
    have idle: "\<not> analyze_action i f" for f using that(1) by blast
    show ?thesis
      using assms that(2) unfolding main_no_action [OF idle]
      by (auto simp: button_def init_session_state_eq handle_def)
  qed
  from one two show ?thesis by blast
qed

theorem transcript_render_witness:
  "(\<forall>f. \<not> analyze_action no_click f) \<and> \<not> button ''Start Over'' no_click
   \<and> filter is_transcript_event (snd (snd (main no_click used))) =
       [Chat_message ''user'', Write ''Uploaded image'', Image ''/tmp/a.png'',
        Chat_message ''assistant'', Write ''Found 3 matching items'']
   \<and> messages (session (fst (snd (main no_click used)))) = Some (transcript (session used))"
proof -
  have a: "\<forall>f. \<not> analyze_action no_click f" and b: "\<not> button ''Start Over'' no_click"
    by (simp_all add: analyze_action_def button_def no_click_def)
  have t: "transcript (session used) = [pictured, found]"
    by (simp add: used_def transcript_def)
  have i: "image_of pictured = [''/tmp/a.png'']" "image_of found = []"
    "role pictured = ''user''" "role found = ''assistant''"
    "content pictured = ''Uploaded image''" "content found = ''Found 3 matching items''"
    by (simp_all add: image_of_def pictured_def found_def)
  note r = transcript_render [OF no_click_used]
  have "filter is_transcript_event (snd (snd (main no_click used))) =
       [Chat_message ''user'', Write ''Uploaded image'', Image ''/tmp/a.png'',
        Chat_message ''assistant'', Write ''Found 3 matching items'']"
    unfolding no_click_used snd_conv r [THEN conjunct1] t by (simp add: i)
  moreover have "messages (session (fst (snd (main no_click used)))) =
      Some (transcript (session used))"
    using r [THEN conjunct2] a b by (simp add: no_click_used)
  ultimately show ?thesis
    using a b by blast
qed

text \<open>
  C10. If \<open>initialize_chat\<close> raises in an analyze action, the run ends with that error,
  the store still holds \<open>None\<close> as the chat handle and is the store the run started
  with (defaults in place), and any analyze action that follows calls
  \<open>initialize_chat\<close> again.
\<close>

theorem failed_init_keeps_none:
  assumes "analyze_action i f" and "handle (session rt) = None"
    and "chat_result i = Inl e" and "main i rt = (out, rt', evs)"
  shows "out = Raised e \<and> chat (session rt') = Some None
         \<and> session rt' = init_session_state (session rt)
         \<and> (\<forall>j g. analyze_action j g \<longrightarrow>
               Initialize_chat_call (length (loops rt')) \<in> set (snd (snd (main j rt'))))"
proof -
  have r: "rt' = rt\<lparr>spinner := False, loops := loops rt @ [Closed],
                    session := init_session_state (session rt)\<rparr>" and o: "out = Raised e"
    using assms(4) unfolding main_action [OF assms(1)] assms(2) assms(3)
    by (simp_all add: Let_def)
  have h: "handle (session rt') = None"
    using assms(2) by (simp add: r init_session_state_eq handle_def)
  have "Initialize_chat_call (length (loops rt')) \<in> set (snd (snd (main j rt')))"
    if "analyze_action j g" for j g
    unfolding main_action [OF that] h
    by (simp add: Let_def split: sum.splits)
  then show ?thesis
    using o assms(2) by (auto simp: r init_session_state_eq)
qed

theorem failed_init_keeps_none_witness:
  "analyze_action click_init_fails photo \<and> handle (session fresh) = None
   \<and> chat_result click_init_fails = Inl (CollaboratorError ''no endpoint'')
   \<and> chat (session (fst (snd (main click_init_fails fresh)))) = Some None
   \<and> analyze_action click_analyze photo
   \<and> Initialize_chat_call 1
       \<in> set (snd (snd (main click_analyze (fst (snd (main click_init_fails fresh))))))"
proof -
  have c: "chat_result click_init_fails = Inl (CollaboratorError ''no endpoint'')"
    by (simp add: click_init_fails_def)
  note t = failed_init_keeps_none
    [OF click_init_fails_action fresh_no_handle c click_init_fails_fresh]
  have "chat (session (fst (snd (main click_init_fails fresh)))) = Some None"
    using t [THEN conjunct2, THEN conjunct1] by (simp add: click_init_fails_fresh)
  moreover have "Initialize_chat_call 1
       \<in> set (snd (snd (main click_analyze (fst (snd (main click_init_fails fresh))))))"
    using t [THEN conjunct2, THEN conjunct2, THEN conjunct2, rule_format,
        OF click_analyze_action]
    by (simp add: click_init_fails_fresh)
  ultimately show ?thesis
    using click_init_fails_action click_analyze_action fresh_no_handle c by blast
qed

end
